theory Spec2Isabelle
  imports Main "HOL-Library.Word"
begin

unbundle bit_operations_syntax

section \<open>Ranges of splats (bucket.h)\<close>

text \<open>
  \<^verbatim>\<open>struct Range\<close> of bucket.h: \<^verbatim>\<open>scan_type\<close> and \<^verbatim>\<open>size_type\<close> are
  \<^verbatim>\<open>uint32_t\<close>, \<^verbatim>\<open>index_type\<close> is \<^verbatim>\<open>uint64_t\<close>. The fields are declared in the
  order of the header.
\<close>

record Range =
  scan :: "32 word"
  size_r :: "32 word"
  start :: "64 word"

text \<open>
  Modelled from the spec: the constructors \<^verbatim>\<open>Range()\<close> and \<^verbatim>\<open>Range(scan, splat)\<close>, which
  bucket.h declares and whose bodies (bucket.cpp) are not among the sources. The header
  documents them as "an empty scan range" and "a splat range with one splat"; the test
  \<^verbatim>\<open>TestRange::testConstructor\<close> fixes size = 0 for the first and the three fields of
  the second. The scan and start of the empty range are not fixed by the header, the spec
  or the tests; they are overwritten by \<^verbatim>\<open>append\<close> before anything reads them, and are
  taken as 0 here.
\<close>

definition Range_empty :: Range where
  "Range_empty = \<lparr>scan = 0, size_r = 0, start = 0\<rparr>"

definition Range_single :: "32 word \<Rightarrow> 64 word \<Rightarrow> Range" where
  "Range_single sc splat = \<lparr>scan = sc, size_r = 1, start = splat\<rparr>"

text \<open>
  Modelled from the spec: \<^verbatim>\<open>Range::append\<close>, declared in bucket.h, body (bucket.cpp) not
  among the sources. Section 4.1 of the spec gives the extension rule (same scan, index
  equal to start + size, size below the 32-bit maximum) and the rule for the empty range;
  the tests of the repository fix the remaining behaviour:
  \<^item> \<^verbatim>\<open>testAppendEmpty\<close>: an empty range accepts any element and becomes (scan, splat, 1);
  \<^item> \<^verbatim>\<open>testAppendEnd\<close>: the element at start + size extends the range by one;
  \<^item> \<^verbatim>\<open>testAppendOverflow\<close>: with size = 0xFFFFFFFF that element is refused;
  \<^item> \<^verbatim>\<open>testAppendMiddle\<close>: an element already inside the range is accepted and the range is
    left as it is (this is also what \<^verbatim>\<open>TestRangeCollector::testSimple\<close> needs for its
    repeated element);
  \<^item> \<^verbatim>\<open>testAppendGap\<close>, \<^verbatim>\<open>testAppendNewScan\<close>: an element past start + size, or of another
    scan, is refused and the range is left as it is.
  The comparison with start + size is made on the distance \<open>splat - start\<close>, so that it
  cannot wrap around 64 bits; this keeps the invariant of the header (start + size - 1
  fits \<^verbatim>\<open>index_type\<close>, "maintained by append").
  The result is the returned flag and the range after the call. The field \<^verbatim>\<open>size\<close> is
  \<open>size_r\<close> here, and the function is \<open>Range_append\<close>.
\<close>

definition Range_append :: "Range \<Rightarrow> 32 word \<Rightarrow> 64 word \<Rightarrow> bool \<times> Range" where
  "Range_append r sc splat =
     (if size_r r = 0 then (True, \<lparr>scan = sc, size_r = 1, start = splat\<rparr>)
      else if scan r = sc \<and> start r \<le> splat \<and> splat - start r \<le> ucast (size_r r) then
        (if splat - start r = ucast (size_r r) then
           (if size_r r = 0xFFFFFFFF then (False, r) else (True, r\<lparr>size_r := size_r r + 1\<rparr>))
         else (True, r))
      else (False, r))"

subsection \<open>RangeCollector\<close>

text \<open>
  \<^verbatim>\<open>RangeCollector<OutputIterator>\<close> of bucket.h. The output iterator of the tests is a
  \<^verbatim>\<open>back_insert_iterator\<close>: writing through it appends to a vector, which is the list
  \<open>out\<close> here.
\<close>

record RangeCollector =
  current :: Range
  out :: "Range list"

definition RangeCollector_new :: "Range list \<Rightarrow> RangeCollector" where
  "RangeCollector_new ou = \<lparr>current = Range_empty, out = ou\<rparr>"

definition RangeCollector_append :: "RangeCollector \<Rightarrow> 32 word \<Rightarrow> 64 word \<Rightarrow> RangeCollector" where
  "RangeCollector_append c sc splat =
     (case Range_append (current c) sc splat of
        (True, r) \<Rightarrow> c\<lparr>current := r\<rparr>
      | (False, r) \<Rightarrow> \<lparr>current = Range_single sc splat, out = out c @ [r]\<rparr>)"

definition flush :: "RangeCollector \<Rightarrow> RangeCollector" where
  "flush c =
     (if size_r (current c) > 0 then \<lparr>current = Range_empty, out = out c @ [current c]\<rparr>
      else c)"

text \<open>The destructor flushes; what is left of the collector is the output.\<close>

definition RangeCollector_destroy :: "RangeCollector \<Rightarrow> Range list" where
  "RangeCollector_destroy c = out (flush c)"

text \<open>A sequence of \<open>append\<close> calls, in order.\<close>

definition append_all :: "RangeCollector \<Rightarrow> (32 word \<times> 64 word) list \<Rightarrow> RangeCollector" where
  "append_all c elems = fold (\<lambda>(sc, splat) c'. RangeCollector_append c' sc splat) elems c"

section \<open>Octree nodes and their traversal\<close>

text \<open>
  Modelled from the spec: \<^verbatim>\<open>Bucket::internal::Node\<close> and \<^verbatim>\<open>forEachNode\<close>, which are declared in
  bucket_internal.h and defined in bucket.cpp; neither file is among the sources. What
  is here follows section 4.3 of the spec and the tests of test_bucket.cpp that call them:
  \<^item> \<^verbatim>\<open>TestNode::testChild\<close>: child \<open>idx\<close> of a node doubles the coordinates, adds bit 0 of
    \<open>idx\<close> to x, bit 1 to y and bit 2 to z, and is one level down; a node of level 0 has no
    child and there is no child 8 (\<^verbatim>\<open>std::invalid_argument\<close>);
  \<^item> \<^verbatim>\<open>TestNode::testToMicro\<close>, \<^verbatim>\<open>testSize\<close>: a node of level \<open>l\<close> spans \<open>2 ^ l\<close> micro-cells
    from \<open>coords * 2 ^ l\<close> on each axis;
  \<^item> \<^verbatim>\<open>TestForEachNode::testSimple\<close>: \<^verbatim>\<open>forEachNode(dims, levels, func)\<close> starts at the node
    (0, 0, 0) of level \<open>levels - 1\<close>, calls \<open>func\<close> on a node before its children, takes the
    children in the order of their index and leaves out a child whose lower corner is not
    below \<open>dims\<close> on every axis;
  \<^item> \<^verbatim>\<open>TestForEachNode::testAsserts\<close>: with dims (4, 4, 6) the calls with 100, 0 and 3 levels
    throw \<^verbatim>\<open>std::invalid_argument\<close>, so the root node, of side \<open>2 ^ (levels - 1)\<close>, has to
    cover \<open>dims\<close>.
  Coordinates and levels are natural numbers: the bound on the number of levels keeps
  \<open>2 ^ level\<close> inside the machine type. That bound (the spec's floor(log2(MAX_DIM))) is a
  constant of the absent header and is the parameter \<open>max_levels\<close>.
  The callback of the source is a functor that may record what it sees; here it is a
  predicate, and the traversal returns the nodes it has been called on, in order.
\<close>

datatype error = InvalidArgument | RangeError | LengthError | AssertionFailure | OutOfBounds

datatype Node = Node nat nat nat nat

fun getLevel :: "Node \<Rightarrow> nat" where
  "getLevel (Node x y z l) = l"

fun getCoords :: "Node \<Rightarrow> nat \<times> nat \<times> nat" where
  "getCoords (Node x y z l) = (x, y, z)"

fun Node_size :: "Node \<Rightarrow> nat" where
  "Node_size (Node x y z l) = 2 ^ l"

fun toMicro :: "Node \<Rightarrow> (nat \<times> nat \<times> nat) \<times> (nat \<times> nat \<times> nat)" where
  "toMicro (Node x y z l) =
     ((x * 2 ^ l, y * 2 ^ l, z * 2 ^ l), ((x + 1) * 2 ^ l, (y + 1) * 2 ^ l, (z + 1) * 2 ^ l))"

fun child :: "Node \<Rightarrow> nat \<Rightarrow> error + Node" where
  "child (Node x y z l) idx =
     (if l = 0 \<or> idx \<ge> 8 then Inl InvalidArgument
      else Inr (Node (2 * x + idx mod 2) (2 * y + idx div 2 mod 2) (2 * z + idx div 4 mod 2) (l - 1)))"

fun inside :: "Node \<Rightarrow> nat \<times> nat \<times> nat \<Rightarrow> bool" where
  "inside n (dx, dy, dz) =
     (case fst (toMicro n) of (lx, ly, lz) \<Rightarrow> lx < dx \<and> ly < dy \<and> lz < dz)"

fun forEachNode_rec :: "nat \<times> nat \<times> nat \<Rightarrow> (Node \<Rightarrow> bool) \<Rightarrow> nat \<Rightarrow> nat \<Rightarrow> nat \<Rightarrow> nat \<Rightarrow> Node list" where
  "forEachNode_rec dims func x y z 0 = [Node x y z 0]"
| "forEachNode_rec dims func x y z (Suc l) =
     Node x y z (Suc l) #
     (if func (Node x y z (Suc l)) then
        concat (map (\<lambda>idx.
          let cx = 2 * x + idx mod 2; cy = 2 * y + idx div 2 mod 2; cz = 2 * z + idx div 4 mod 2
          in if inside (Node cx cy cz l) dims then forEachNode_rec dims func cx cy cz l else [])
          [0..<8])
      else [])"

definition forEachNode :: "nat \<Rightarrow> nat \<times> nat \<times> nat \<Rightarrow> nat \<Rightarrow> (Node \<Rightarrow> bool) \<Rightarrow> error + Node list" where
  "forEachNode max_levels dims levels func =
     (case dims of (dx, dy, dz) \<Rightarrow>
        if \<not> (1 \<le> levels \<and> levels \<le> max_levels) then Inl InvalidArgument
        else if \<not> (2 ^ (levels - 1) \<ge> dx \<and> 2 ^ (levels - 1) \<ge> dy \<and> 2 ^ (levels - 1) \<ge> dz)
          then Inl InvalidArgument
        else Inr (forEachNode_rec dims func 0 0 0 (levels - 1)))"

text \<open>The callback of \<^verbatim>\<open>TestForEachNode::nodeFunc\<close>: descend where the node holds the
  micro-cell (2, 1, 4).\<close>

definition nodeFunc :: "Node \<Rightarrow> bool" where
  "nodeFunc n = (case toMicro n of ((lx, ly, lz), (ux, uy, uz)) \<Rightarrow>
      lx \<le> 2 \<and> 2 < ux \<and> ly \<le> 1 \<and> 1 < uy \<and> lz \<le> 4 \<and> 4 < uz)"

section \<open>The octree of splats (splattree.cpp)\<close>

subsection \<open>Morton codes\<close>

text \<open>
  \<^verbatim>\<open>SplatTree::size_type\<close> is declared in splattree.h, which is not among the sources. It is
  taken as an unsigned 32-bit integer: the code mixes it freely with \<^verbatim>\<open>unsigned int\<close>
  (\<^verbatim>\<open>unsigned int digit\<close>, \<^verbatim>\<open>1U << (3 * i)\<close>), and the constructor checks that the number of
  splats, a \<^verbatim>\<open>size_t\<close>, fits it.
\<close>

type_synonym size_type = "32 word"

text \<open>
  \<^verbatim>\<open>SplatTree::makeCode\<close>. The loop runs on \<open>(shift, ans, x, y, z)\<close> and ends when the three
  coordinates are zero. \<^verbatim>\<open>digit << shift\<close> is a shift of a 32-bit value: bits pushed beyond
  bit 31 are lost (\<open>push_bit\<close> on a 32-bit word). From \<open>shift = 32\<close> on the C++ shift is
  not defined; its value only flows into \<open>ans\<close>, which is dropped by the
  \<^verbatim>\<open>std::range_error\<close> that follows the loop in that case.
  \<^verbatim>\<open>MLSGPU_ASSERT(cond, exception)\<close> (errors.h, not among the sources) throws the named
  exception when the condition is false; \<^verbatim>\<open>numeric_limits<size_type>::digits\<close> is 32.
\<close>

function makeCode_loop :: "nat \<Rightarrow> size_type \<Rightarrow> size_type \<Rightarrow> size_type \<Rightarrow> size_type \<Rightarrow> nat \<times> size_type" where
  "makeCode_loop shift ans x y z =
     (if x \<noteq> 0 \<or> y \<noteq> 0 \<or> z \<noteq> 0 then
        let digit = (x AND 1) + push_bit 1 (y AND 1) + push_bit 2 (z AND 1)
        in makeCode_loop (shift + 3) (ans + push_bit shift digit)
             (drop_bit 1 x) (drop_bit 1 y) (drop_bit 1 z)
      else (shift, ans))"
  by pat_completeness auto
termination
proof (relation "measure (\<lambda>(shift, ans, x, y, z). unat x + unat y + unat z)")
  show "wf (measure (\<lambda>(shift, ans, x, y, z). unat x + unat y + unat z))"
    by simp
next
  fix shift :: nat and ans x y z digit :: size_type
  assume nz: "x \<noteq> 0 \<or> y \<noteq> 0 \<or> z \<noteq> 0"
  have half: "unat (drop_bit (Suc 0) w) = unat w div 2" for w :: size_type
    unfolding unat_drop_bit_eq by (simp add: drop_bit_eq_div)
  have pos: "w \<noteq> 0 \<Longrightarrow> 0 < unat w" for w :: size_type
    by (simp add: unat_gt_0)
  from nz have "unat x div 2 + unat y div 2 + unat z div 2 < unat x + unat y + unat z"
    using pos [of x] pos [of y] pos [of z] by linarith
  then show "((shift + 3, ans + push_bit shift digit, drop_bit 1 x, drop_bit 1 y, drop_bit 1 z),
         (shift, ans, x, y, z)) \<in> measure (\<lambda>(shift, ans, x, y, z). unat x + unat y + unat z)"
    by (simp add: half)
qed

declare makeCode_loop.simps [simp del]

definition makeCode :: "size_type \<Rightarrow> size_type \<Rightarrow> size_type \<Rightarrow> error + size_type" where
  "makeCode x y z =
     (case makeCode_loop 0 0 x y z of
        (shift, ans) \<Rightarrow> if shift < 32 then Inr ans else Inl RangeError)"

subsection \<open>The constructor\<close>

text \<open>
  \<^verbatim>\<open>SplatTree::SplatTree(splats, grid)\<close>. The first lines of the loop body over the splats are
  floating point (the radius, the corners \<open>lo\<close> and \<open>hi\<close>, \<^verbatim>\<open>Grid::worldToVertex\<close> of the
  absent grid.h, and the rounding of \<^verbatim>\<open>RoundUp\<close> and \<^verbatim>\<open>RoundDown\<close>); they are not modelled.
  Their result, the integer corners \<^verbatim>\<open>ilo\<close> and \<^verbatim>\<open>ihi\<close> of each splat, is the input here:
  a splat is its \<open>ibox\<close>, the pair (ilo, ihi), and the grid is its three
  \<^verbatim>\<open>numVertices\<close>. The integers of the source are 32-bit \<^verbatim>\<open>int\<close>s; the assertions keep them
  between 0 and the number of vertices, so they are \<open>int\<close> here and \<^verbatim>\<open>>>\<close> is \<open>drop_bit\<close>.
\<close>

type_synonym ibox = "(int \<times> int \<times> int) \<times> (int \<times> int \<times> int)"

text \<open>\<^verbatim>\<open>struct Entry\<close>; its \<^verbatim>\<open>operator<\<close> compares \<open>pos\<close>.\<close>

record Entry =
  pos :: size_type
  splatId :: size_type

text \<open>The three arrays of the tree. The member \<^verbatim>\<open>start\<close> is \<open>start_t\<close> here (\<open>start\<close> is the
  field of \<open>Range\<close>).\<close>

record SplatTree =
  levelStart :: "size_type list"
  start_t :: "size_type list"
  ids :: "size_type list"

text \<open>\<^verbatim>\<open>while ((1 << maxLevel) < size) maxLevel++;\<close>\<close>

function find_maxLevel :: "nat \<Rightarrow> nat \<Rightarrow> nat" where
  "find_maxLevel sz maxLevel = (if 2 ^ maxLevel < sz then find_maxLevel sz (maxLevel + 1) else maxLevel)"
  by pat_completeness auto
termination
proof (relation "measure (\<lambda>(sz, maxLevel). sz - 2 ^ maxLevel)")
  show "wf (measure (\<lambda>(sz, maxLevel). sz - 2 ^ maxLevel))"
    by simp
next
  fix sz maxLevel :: nat
  assume "2 ^ maxLevel < sz"
  moreover have "(0 :: nat) < 2 ^ maxLevel"
    by simp
  ultimately have "sz - 2 * 2 ^ maxLevel < sz - 2 ^ maxLevel"
    by linarith
  then show "((sz, maxLevel + 1), (sz, maxLevel)) \<in> measure (\<lambda>(sz, maxLevel). sz - 2 ^ maxLevel)"
    by simp
qed

declare find_maxLevel.simps [simp del]

text \<open>
  \<^verbatim>\<open>levelStart[i + 1] = levelStart[i] + (1U << (3 * i))\<close> for \<open>i\<close> from 0 to \<open>maxLevel\<close>, in
  32-bit arithmetic. From \<open>i = 11\<close> on (a grid with more than 1024 vertices on an axis)
  the shift is by 33 or more, which C++ does not define; the compiled code shifts by the
  count modulo 32, as the shift instruction of the machine does (\<^verbatim>\<open>1U << 33\<close> is 2, and
  \<^verbatim>\<open>levelStart[12]\<close> is 1227133515). The model takes the count modulo 32; up to \<open>i = 10\<close>
  this is the count itself.
\<close>

fun fill_levelStart :: "size_type list \<Rightarrow> nat list \<Rightarrow> size_type list" where
  "fill_levelStart ls [] = ls"
| "fill_levelStart ls (i # is) =
     fill_levelStart (ls @ [last ls + push_bit (3 * i mod 32) 1]) is"

text \<open>\<^verbatim>\<open>while ((ihi[i] >> shift) - (ilo[i] >> shift) > 1) shift++;\<close>\<close>

function shift_loop :: "int \<Rightarrow> int \<Rightarrow> nat \<Rightarrow> nat" where
  "shift_loop lo hi shift =
     (if drop_bit shift hi - drop_bit shift lo > 1 then shift_loop lo hi (shift + 1) else shift)"
  by pat_completeness auto
termination
proof (relation "measure (\<lambda>(lo, hi, shift). nat (drop_bit shift hi - drop_bit shift lo))")
  show "wf (measure (\<lambda>(lo, hi, shift). nat (drop_bit shift hi - drop_bit shift lo)))"
    by simp
next
  fix lo hi :: int and shift :: nat
  assume *: "1 < drop_bit shift hi - drop_bit shift lo"
  have half: "drop_bit (shift + 1) k = drop_bit shift k div 2" for k :: int
    by (simp add: drop_bit_Suc drop_bit_half)
  have "drop_bit (shift + 1) hi - drop_bit (shift + 1) lo < drop_bit shift hi - drop_bit shift lo"
    unfolding half using * by linarith
  with * show "((lo, hi, shift + 1), (lo, hi, shift))
      \<in> measure (\<lambda>(lo, hi, shift). nat (drop_bit shift hi - drop_bit shift lo))"
    by simp
qed

declare shift_loop.simps [simp del]

text \<open>
  The loop over the three axes: the two \<^verbatim>\<open>assert\<close>s of the axis, then its \<open>shift_loop\<close>,
  which goes on from the shift the axes before have reached. A failed \<^verbatim>\<open>assert\<close> ends
  the program; it is the error \<open>AssertionFailure\<close>.
\<close>

fun axis_loop :: "(int \<times> int \<times> nat) list \<Rightarrow> nat \<Rightarrow> error + nat" where
  "axis_loop [] shift = Inr shift"
| "axis_loop ((lo, hi, n) # axes) shift =
     (if \<not> (hi \<ge> 0 \<and> hi < int n) then Inl AssertionFailure
      else if \<not> (lo \<ge> 0 \<and> lo < int n) then Inl AssertionFailure
      else axis_loop axes (shift_loop lo hi shift))"

text \<open>The results of a loop whose body may throw: the first error ends it.\<close>

fun collect :: "(error + 'a) list \<Rightarrow> error + 'a list" where
  "collect [] = Inr []"
| "collect (r # rs) =
     (case r of
        Inl e \<Rightarrow> Inl e
      | Inr v \<Rightarrow> (case collect rs of Inl e \<Rightarrow> Inl e | Inr vs \<Rightarrow> Inr (v # vs)))"

text \<open>\<^verbatim>\<open>e.pos = levelStart[level] + makeCode(x, y, z)\<close>, with the splat's id.\<close>

definition cell_entry :: "size_type \<Rightarrow> size_type \<Rightarrow> int \<Rightarrow> int \<Rightarrow> int \<Rightarrow> error + Entry" where
  "cell_entry base sid x y z =
     (case makeCode (word_of_int x) (word_of_int y) (word_of_int z) of
        Inl e \<Rightarrow> Inl e
      | Inr code \<Rightarrow> Inr \<lparr>pos = base + code, splatId = sid\<rparr>)"

text \<open>
  The body of the loop over the splats, after the floating point: the shift, the
  \<^verbatim>\<open>assert(shift <= maxLevel)\<close>, the level, and one entry for each cell from
  \<^verbatim>\<open>ilo >> shift\<close> to \<^verbatim>\<open>ihi >> shift\<close>, z outermost and x innermost.
\<close>

definition splat_entries :: "nat \<Rightarrow> size_type list \<Rightarrow> nat \<times> nat \<times> nat \<Rightarrow> size_type \<Rightarrow> ibox \<Rightarrow> error + Entry list" where
  "splat_entries maxLevel ls nv sid box =
     (case (box, nv) of (((lo0, lo1, lo2), (hi0, hi1, hi2)), (n0, n1, n2)) \<Rightarrow>
        (case axis_loop [(lo0, hi0, n0), (lo1, hi1, n1), (lo2, hi2, n2)] 0 of
           Inl e \<Rightarrow> Inl e
         | Inr shift \<Rightarrow>
             if \<not> shift \<le> maxLevel then Inl AssertionFailure
             else
               let level = maxLevel - shift in
               collect (concat (map (\<lambda>z. concat (map (\<lambda>y. map (\<lambda>x.
                   cell_entry (ls ! level) sid x y z)
                 [drop_bit shift lo0 .. drop_bit shift hi0])
                 [drop_bit shift lo1 .. drop_bit shift hi1]))
                 [drop_bit shift lo2 .. drop_bit shift hi2]))))"

text \<open>The loop over the splats; \<^verbatim>\<open>splatId\<close> is a \<^verbatim>\<open>size_type\<close> counting from 0.\<close>

definition all_entries :: "nat \<Rightarrow> size_type list \<Rightarrow> nat \<times> nat \<times> nat \<Rightarrow> ibox list \<Rightarrow> error + Entry list" where
  "all_entries maxLevel ls nv boxes =
     (case collect (map (\<lambda>(i, box). splat_entries maxLevel ls nv (word_of_nat i) box)
                     (zip [0..<length boxes] boxes)) of
        Inl e \<Rightarrow> Inl e
      | Inr ess \<Rightarrow> Inr (concat ess))"

text \<open>
  \<^verbatim>\<open>start[e.pos]++\<close> for the entries in turn. An index outside the vector is undefined
  behaviour in C++; the model ends with the error \<open>OutOfBounds\<close> there.
\<close>

fun count_entries :: "Entry list \<Rightarrow> size_type list \<Rightarrow> error + size_type list" where
  "count_entries [] st = Inr st"
| "count_entries (e # es) st =
     (if unat (pos e) < length st
      then count_entries es (st[unat (pos e) := st ! unat (pos e) + 1])
      else Inl OutOfBounds)"

text \<open>The last loop: \<^verbatim>\<open>next = sum + start[i]; start[i] = sum; sum = next\<close>, in 32-bit
  arithmetic.\<close>

fun prefix_sum :: "size_type \<Rightarrow> size_type list \<Rightarrow> size_type list" where
  "prefix_sum sm [] = []"
| "prefix_sum sm (c # cs) = sm # prefix_sum (sm + c) cs"

text \<open>
  From \<^verbatim>\<open>start.resize(levelStart.back() + 1)\<close> (the new elements are 0) and
  \<^verbatim>\<open>stable_sort\<close> to the end. \<open>sort_key\<close> is a stable sort (insertion sort); on a key it
  gives the one stable sorted arrangement, as \<^verbatim>\<open>std::stable_sort\<close> does.
\<close>

definition flatten_entries :: "size_type list \<Rightarrow> Entry list \<Rightarrow> error + SplatTree" where
  "flatten_entries ls entries =
     (let start0 = replicate (unat (last ls + 1)) 0;
          sorted_entries = sort_key pos entries
      in case count_entries sorted_entries start0 of
           Inl e \<Rightarrow> Inl e
         | Inr counts \<Rightarrow>
             Inr \<lparr>levelStart = ls, start_t = prefix_sum 0 counts,
                  ids = map splatId sorted_entries\<rparr>)"

text \<open>The constructor: the length check, the levels, the entries, the arrays.\<close>

definition SplatTree_new :: "ibox list \<Rightarrow> nat \<times> nat \<times> nat \<Rightarrow> error + SplatTree" where
  "SplatTree_new boxes nv =
     (if \<not> length boxes \<le> 0xFFFFFFFF then Inl LengthError
      else
        let sz = (case nv of (n0, n1, n2) \<Rightarrow> max (max n0 n1) n2);
            maxLevel = find_maxLevel sz 0;
            ls = fill_levelStart [0] [0..<maxLevel + 1]
        in case all_entries maxLevel ls nv boxes of
             Inl e \<Rightarrow> Inl e
           | Inr entries \<Rightarrow> flatten_entries ls entries)"

text \<open>The cell of an entry as a number: the index into \<^verbatim>\<open>start\<close>.\<close>

definition key :: "Entry \<Rightarrow> nat" where
  "key e = unat (pos e)"

text \<open>The start of level \<open>i\<close> as a number: the sum of \<open>8 ^ j\<close> over the levels \<open>j < i\<close> (the
  spec's \<^verbatim>\<open>levelStart[i]\<close>).\<close>

fun levelStart_val :: "nat \<Rightarrow> nat" where
  "levelStart_val 0 = 0"
| "levelStart_val (Suc i) = levelStart_val i + 8 ^ i"

text \<open>
  The notions in which the claims about \<^verbatim>\<open>makeCode\<close> are stated; they are not part of the
  source. \<open>bitlen n\<close> is the number of binary digits of \<open>n\<close> (\<open>bitlen n \<le> k\<close> exactly when
  \<open>n < 2 ^ k\<close>), \<open>largest\<close> is the largest of the three coordinates, \<open>interleaved x y z n\<close>
  is bit \<open>n\<close> of the interleaving as the spec words it (bit \<open>3k\<close> from \<open>x\<close>, \<open>3k + 1\<close> from
  \<open>y\<close>, \<open>3k + 2\<close> from \<open>z\<close>), and \<open>morton\<close> is the interleaving of three natural numbers
  of any size, digit by digit with no upper limit.
\<close>

fun bitlen :: "nat \<Rightarrow> nat" where
  "bitlen n = (if n = 0 then 0 else Suc (bitlen (n div 2)))"

declare bitlen.simps [simp del]

definition largest :: "size_type \<Rightarrow> size_type \<Rightarrow> size_type \<Rightarrow> nat" where
  "largest x y z = max (unat x) (max (unat y) (unat z))"

definition interleaved :: "size_type \<Rightarrow> size_type \<Rightarrow> size_type \<Rightarrow> nat \<Rightarrow> bool" where
  "interleaved x y z n \<longleftrightarrow>
     (n mod 3 = 0 \<and> bit x (n div 3)) \<or> (n mod 3 = 1 \<and> bit y (n div 3))
     \<or> (n mod 3 = 2 \<and> bit z (n div 3))"

function morton :: "nat \<Rightarrow> nat \<Rightarrow> nat \<Rightarrow> nat" where
  "morton x y z =
     (if x = 0 \<and> y = 0 \<and> z = 0 then 0
      else x mod 2 + 2 * (y mod 2) + 4 * (z mod 2) + 8 * morton (x div 2) (y div 2) (z div 2))"
  by pat_completeness auto
termination
proof (relation "measure (\<lambda>(x, y, z). x + y + z)")
  show "wf (measure (\<lambda>(x, y, z). x + y + z))"
    by simp
next
  fix x y z :: nat
  assume "\<not> (x = 0 \<and> y = 0 \<and> z = 0)"
  then have "x div 2 + y div 2 + z div 2 < x + y + z"
    by linarith
  then show "((x div 2, y div 2, z div 2), x, y, z) \<in> measure (\<lambda>(x, y, z). x + y + z)"
    by simp
qed

declare morton.simps [simp del]

text \<open>A splat that covers the eight cells of a grid of 2 vertices on each axis.\<close>

definition eight_cells :: "size_type \<Rightarrow> Entry list" where
  "eight_cells sid = map (\<lambda>p. \<lparr>pos = p, splatId = sid\<rparr>) [1, 2, 3, 4, 5, 6, 7, 8]"

section \<open>Range and RangeCollector: results\<close>

lemma append_all_Nil: "append_all c [] = c"
  by (simp add: append_all_def)

lemma append_all_Cons:
  "append_all c ((sc, splat) # elems) = append_all (RangeCollector_append c sc splat) elems"
  by (simp add: append_all_def)

text \<open>The 32-bit size against the 64-bit distance: both are compared as numbers.\<close>

lemma unat_ucast_32_64: "unat (ucast (w :: 32 word) :: 64 word) = unat w"
proof -
  have "is_up (ucast :: 32 word \<Rightarrow> 64 word)" by (simp add: is_up)
  then have "uint (ucast w :: 64 word) = uint w" by (rule uint_up_ucast)
  then show ?thesis unfolding unat_eq_nat_uint by (rule arg_cong)
qed

lemma ucast_32_64_eq: "(x :: 64 word) = ucast (w :: 32 word) \<longleftrightarrow> unat x = unat w"
  by (metis unat_ucast_32_64 word_unat_eq_iff)

lemma ucast_32_64_le: "(x :: 64 word) \<le> ucast (w :: 32 word) \<longleftrightarrow> unat x \<le> unat w"
  by (simp add: word_le_nat_alt unat_ucast_32_64)

lemma Range_append_cases:
  "Range_append r sc splat =
     (if size_r r = 0 then (True, \<lparr>scan = sc, size_r = 1, start = splat\<rparr>)
      else if scan r = sc \<and> unat (start r) \<le> unat splat
              \<and> unat splat \<le> unat (start r) + unat (size_r r) then
        (if unat splat = unat (start r) + unat (size_r r) then
           (if size_r r = 0xFFFFFFFF then (False, r) else (True, r\<lparr>size_r := size_r r + 1\<rparr>))
         else (True, r))
      else (False, r))"
proof (cases "start r \<le> splat")
  case True
  then have le: "unat (start r) \<le> unat splat"
    by (simp add: word_le_nat_alt)
  from True have d: "unat (splat - start r) = unat splat - unat (start r)"
    by (simp add: unat_sub)
  have 1: "splat - start r \<le> ucast (size_r r) \<longleftrightarrow> unat splat \<le> unat (start r) + unat (size_r r)"
    unfolding ucast_32_64_le d using le by linarith
  have 2: "splat - start r = ucast (size_r r) \<longleftrightarrow> unat splat = unat (start r) + unat (size_r r)"
    unfolding ucast_32_64_eq d using le by linarith
  show ?thesis
    unfolding Range_append_def 1 2 using True le by simp
next
  case False
  then have "\<not> unat (start r) \<le> unat splat"
    by (simp add: word_le_nat_alt)
  with False show ?thesis
    unfolding Range_append_def by simp
qed

text \<open>
  The rule of the claim C5 as it is written ("true if and only if the scan is the same, the
  index is start + size and size is below the 32-bit maximum") fails on the input of
  \<^verbatim>\<open>TestRange::testAppendMiddle\<close>: the range (scan 4, start 0x123456781234, size 0x10000)
  accepts the element (4, 0x12345678FFFF), which lies inside it, although that index is
  not start + size.
\<close>

theorem Range_append_middle_counterexample:
  "\<not> (fst (Range_append \<lparr>scan = 4, size_r = 0x10000, start = 0x123456781234\<rparr> 4 0x12345678FFFF)
       \<longleftrightarrow> (4 :: 32 word) = 4
            \<and> (0x12345678FFFF :: 64 word) = 0x123456781234 + ucast (0x10000 :: 32 word)
            \<and> (0x10000 :: 32 word) < 0xFFFFFFFF)"
  by code_simp

text \<open>
  C5, as amended: for every Range with state (scan, start, size) and every call
  \<^verbatim>\<open>append(s, i)\<close>, the call returns true if and only if the Range is empty (size = 0), or
  \<open>s = scan\<close> and \<open>start \<le> i \<le> start + size\<close> (as numbers, without wrap-around) and it
  is not the case that \<open>i = start + size\<close> with size at the 32-bit maximum. When it
  returns false the Range is unchanged. Appending to an empty Range succeeds and
  initialises it to (s, i, 1); the element \<open>i = start + size\<close> of a non-empty Range with
  size below the maximum increments the size; an element with \<open>start \<le> i < start + size\<close>
  is accepted and leaves the Range unchanged.
\<close>

theorem Range_append_rule:
  "(fst (Range_append r sc splat) \<longleftrightarrow>
      size_r r = 0 \<or>
      (sc = scan r \<and> unat (start r) \<le> unat splat
       \<and> unat splat \<le> unat (start r) + unat (size_r r)
       \<and> \<not> (unat splat = unat (start r) + unat (size_r r) \<and> size_r r = 0xFFFFFFFF)))
   \<and> (\<not> fst (Range_append r sc splat) \<longrightarrow> snd (Range_append r sc splat) = r)
   \<and> (size_r r = 0 \<longrightarrow>
        Range_append r sc splat = (True, \<lparr>scan = sc, size_r = 1, start = splat\<rparr>))
   \<and> (size_r r \<noteq> 0 \<and> sc = scan r \<and> unat splat = unat (start r) + unat (size_r r)
        \<and> size_r r \<noteq> 0xFFFFFFFF \<longrightarrow>
        Range_append r sc splat = (True, r\<lparr>size_r := size_r r + 1\<rparr>))
   \<and> (size_r r \<noteq> 0 \<and> sc = scan r \<and> unat (start r) \<le> unat splat
        \<and> unat splat < unat (start r) + unat (size_r r) \<longrightarrow>
        Range_append r sc splat = (True, r))"
  unfolding Range_append_cases by auto

text \<open>
  The rule at the inputs of \<^verbatim>\<open>testAppendEmpty\<close>, \<^verbatim>\<open>testAppendEnd\<close>, \<^verbatim>\<open>testAppendMiddle\<close>,
  \<^verbatim>\<open>testAppendGap\<close> and \<^verbatim>\<open>testAppendOverflow\<close>.
\<close>

theorem Range_append_rule_witness:
  "Range_append Range_empty 3 6 = (True, \<lparr>scan = 3, size_r = 1, start = 6\<rparr>)
   \<and> Range_append \<lparr>scan = 4, size_r = 0x10000, start = 0x123456781234\<rparr> 4 0x123456791234
       = (True, \<lparr>scan = 4, size_r = 0x10001, start = 0x123456781234\<rparr>)
   \<and> Range_append \<lparr>scan = 4, size_r = 0x10000, start = 0x123456781234\<rparr> 4 0x12345678FFFF
       = (True, \<lparr>scan = 4, size_r = 0x10000, start = 0x123456781234\<rparr>)
   \<and> \<not> fst (Range_append \<lparr>scan = 4, size_r = 0x10000, start = 0x123456781234\<rparr> 4 0x123456791235)
   \<and> snd (Range_append \<lparr>scan = 4, size_r = 0x10000, start = 0x123456781234\<rparr> 4 0x123456791235)
       = \<lparr>scan = 4, size_r = 0x10000, start = 0x123456781234\<rparr>
   \<and> \<not> fst (Range_append \<lparr>scan = 3, size_r = 0xFFFFFFFF, start = 0x90000000\<rparr> 3 0x18FFFFFFF)"
  using Range_append_rule [of Range_empty 3 6]
    Range_append_rule [of "\<lparr>scan = 4, size_r = 0x10000, start = 0x123456781234\<rparr>" 4 "0x123456791234"]
    Range_append_rule [of "\<lparr>scan = 4, size_r = 0x10000, start = 0x123456781234\<rparr>" 4 "0x12345678FFFF"]
    Range_append_rule [of "\<lparr>scan = 4, size_r = 0x10000, start = 0x123456781234\<rparr>" 4 "0x123456791235"]
    Range_append_rule [of "\<lparr>scan = 3, size_r = 0xFFFFFFFF, start = 0x90000000\<rparr>" 3 "0x18FFFFFFF"]
  by (simp add: Range_empty_def)

text \<open>
  C8: appending (3,5), (3,6), (3,6), (4,0x123456781234), (5,2), (5,4), (5,5) to a fresh
  RangeCollector and then flushing it, or destroying it, emits exactly the four Ranges
  (3,5,2), (4,0x123456781234,1), (5,2,1), (5,4,2), in that order. (Ranges are written
  (scan, start, size) in the claim; the record has the field order of the header.)
\<close>

theorem RangeCollector_simple:
  "out (flush (append_all (RangeCollector_new [])
      [(3, 5), (3, 6), (3, 6), (4, 0x123456781234), (5, 2), (5, 4), (5, 5)]))
   = [\<lparr>scan = 3, size_r = 2, start = 5\<rparr>,
      \<lparr>scan = 4, size_r = 1, start = 0x123456781234\<rparr>,
      \<lparr>scan = 5, size_r = 1, start = 2\<rparr>,
      \<lparr>scan = 5, size_r = 2, start = 4\<rparr>]
   \<and> RangeCollector_destroy (append_all (RangeCollector_new [])
      [(3, 5), (3, 6), (3, 6), (4, 0x123456781234), (5, 2), (5, 4), (5, 5)])
   = [\<lparr>scan = 3, size_r = 2, start = 5\<rparr>,
      \<lparr>scan = 4, size_r = 1, start = 0x123456781234\<rparr>,
      \<lparr>scan = 5, size_r = 1, start = 2\<rparr>,
      \<lparr>scan = 5, size_r = 2, start = 4\<rparr>]"
  by code_simp

section \<open>forEachNode: results\<close>

text \<open>The model visits the fifteen nodes of \<^verbatim>\<open>TestForEachNode::testSimple\<close>, in its order.\<close>

lemma forEachNode_testSimple:
  "forEachNode 32 (4, 4, 6) 4 nodeFunc = Inr
    [Node 0 0 0 3, Node 0 0 0 2, Node 0 0 1 2, Node 0 0 2 1, Node 1 0 2 1,
     Node 2 0 4 0, Node 3 0 4 0, Node 2 1 4 0, Node 3 1 4 0,
     Node 2 0 5 0, Node 3 0 5 0, Node 2 1 5 0, Node 3 1 5 0,
     Node 0 1 2 1, Node 1 1 2 1]"
  by code_simp

text \<open>
  The precondition of the claim C7 as it is written (\<open>0 < levels \<le> max_levels\<close> and
  \<open>2 ^ levels \<ge> max dims\<close>) holds for dims (4, 4, 6) and 3 levels, and the call reports
  invalid-argument all the same: this is the third call of
  \<^verbatim>\<open>TestForEachNode::testAsserts\<close>. (The bound on the levels is taken as 32 here; any bound
  of 3 or more gives the same.)
\<close>

theorem forEachNode_three_levels_counterexample:
  "\<not> (forEachNode 32 (4, 4, 6) 3 (\<lambda>n. False) = Inl InvalidArgument
       \<longleftrightarrow> \<not> ((0 :: nat) < 3 \<and> (3 :: nat) \<le> 32 \<and> (2 :: nat) ^ 3 \<ge> max 4 (max 4 6)))"
  by code_simp

text \<open>
  C7, as amended: \<^verbatim>\<open>forEachNode(micro, levels, visit)\<close> reports invalid-argument exactly
  when its precondition is violated, the precondition being \<open>0 < levels \<le> max_levels\<close> and
  \<open>2 ^ (levels - 1) \<ge> max micro\<close> (the root node is at level \<open>levels - 1\<close>); for every
  \<open>micro\<close> and \<open>levels\<close> satisfying it the traversal runs without raising invalid-argument,
  starting at the node (0, 0, 0) of level \<open>levels - 1\<close>.
\<close>

theorem forEachNode_invalid_argument_iff:
  "(forEachNode max_levels (dx, dy, dz) levels func = Inl InvalidArgument
     \<longleftrightarrow> \<not> (0 < levels \<and> levels \<le> max_levels \<and> 2 ^ (levels - 1) \<ge> max dx (max dy dz)))
   \<and> (0 < levels \<and> levels \<le> max_levels \<and> 2 ^ (levels - 1) \<ge> max dx (max dy dz) \<longrightarrow>
       (\<exists>ns. forEachNode max_levels (dx, dy, dz) levels func
              = Inr (Node 0 0 0 (levels - 1) # ns)))"
  by (cases "levels - 1") (auto simp add: forEachNode_def)

theorem forEachNode_invalid_argument_iff_witness:
  "(0 :: nat) < 4 \<and> (4 :: nat) \<le> 32 \<and> (2 :: nat) ^ (4 - 1) \<ge> max 4 (max 4 6)
   \<and> forEachNode 32 (4, 4, 6) 4 nodeFunc \<noteq> Inl InvalidArgument
   \<and> (\<exists>ns. forEachNode 32 (4, 4, 6) 4 nodeFunc = Inr (Node 0 0 0 (4 - 1) # ns))"
  using forEachNode_invalid_argument_iff [of 32 4 4 6 4 nodeFunc] by simp

section \<open>makeCode: results\<close>

lemma bitlen_0 [simp]: "bitlen 0 = 0"
  by (simp add: bitlen.simps)

lemma bitlen_pos: "0 < n \<Longrightarrow> bitlen n = Suc (bitlen (n div 2))"
  by (simp add: bitlen.simps)

lemma bitlen_le_iff: "bitlen n \<le> k \<longleftrightarrow> n < 2 ^ k"
proof (induction n arbitrary: k rule: bitlen.induct)
  case (1 n)
  show ?case
  proof (cases "n = 0")
    case True
    then show ?thesis by simp
  next
    case False
    show ?thesis
    proof (cases k)
      case 0
      with False show ?thesis by (simp add: bitlen_pos)
    next
      case (Suc j)
      have "bitlen (n div 2) \<le> j \<longleftrightarrow> n div 2 < 2 ^ j"
        using False by (rule "1.IH")
      also have "\<dots> \<longleftrightarrow> n < 2 ^ Suc j"
        by auto
      finally show ?thesis
        using False Suc by (simp add: bitlen_pos)
    qed
  qed
qed

lemma unat_half: "unat (drop_bit (Suc 0) w) = unat w div 2" for w :: size_type
  unfolding unat_drop_bit_eq by (simp add: drop_bit_eq_div)

lemma largest_0_iff: "largest x y z = 0 \<longleftrightarrow> x = 0 \<and> y = 0 \<and> z = 0"
  by (auto simp add: largest_def unat_eq_zero max_def)

lemma largest_half:
  "largest (drop_bit (Suc 0) x) (drop_bit (Suc 0) y) (drop_bit (Suc 0) z) = largest x y z div 2"
  by (simp add: largest_def unat_half max_def) linarith

lemma makeCode_loop_shift:
  "fst (makeCode_loop shift ans x y z) = shift + 3 * bitlen (largest x y z)"
proof (induction shift ans x y z rule: makeCode_loop.induct)
  case (1 shift ans x y z)
  show ?case
  proof (cases "x \<noteq> 0 \<or> y \<noteq> 0 \<or> z \<noteq> 0")
    case True
    then have pos: "0 < largest x y z"
      using largest_0_iff [of x y z] by auto
    have "fst (makeCode_loop shift ans x y z)
        = fst (makeCode_loop (shift + 3)
            (ans + push_bit shift ((x AND 1) + push_bit 1 (y AND 1) + push_bit 2 (z AND 1)))
            (drop_bit 1 x) (drop_bit 1 y) (drop_bit 1 z))"
      using True by (subst makeCode_loop.simps) (simp add: Let_def)
    also have "\<dots> = shift + 3 + 3 * bitlen (largest (drop_bit 1 x) (drop_bit 1 y) (drop_bit 1 z))"
      using True by (rule "1.IH") simp
    also have "\<dots> = shift + 3 * bitlen (largest x y z)"
      using pos by (simp add: largest_half bitlen_pos)
    finally show ?thesis .
  next
    case False
    then have "largest x y z = 0"
      by (simp add: largest_0_iff)
    with False show ?thesis
      by (subst makeCode_loop.simps) simp
  qed
qed


lemma and1_bit: "bit (w AND 1) n \<longleftrightarrow> n = 0 \<and> bit w 0" for w :: size_type
  by (auto simp add: bit_and_iff bit_1_iff)

lemma push_and1_bit:
  "m < 32 \<Longrightarrow> bit (push_bit m (w AND 1)) n \<longleftrightarrow> n = m \<and> bit w 0" for w :: size_type
  unfolding bit_push_bit_iff and1_bit by auto

lemma push1_and1_bit: "bit (push_bit 1 (w AND 1)) n \<longleftrightarrow> n = 1 \<and> bit w 0" for w :: size_type
  by (rule push_and1_bit) simp

lemma push2_and1_bit: "bit (push_bit 2 (w AND 1)) n \<longleftrightarrow> n = 2 \<and> bit w 0" for w :: size_type
  by (rule push_and1_bit) simp

lemma digit_or:
  "(x AND 1) + push_bit 1 (y AND 1) + push_bit 2 (z AND 1)
     = (x AND 1) OR push_bit 1 (y AND 1) OR push_bit 2 (z AND 1)" for x y z :: size_type
proof -
  have 1: "(x AND 1) + push_bit 1 (y AND 1) = (x AND 1) OR push_bit 1 (y AND 1)"
    by (rule disjunctive_add) (simp only: and1_bit push1_and1_bit, simp)
  have 2: "((x AND 1) OR push_bit 1 (y AND 1)) + push_bit 2 (z AND 1)
      = ((x AND 1) OR push_bit 1 (y AND 1)) OR push_bit 2 (z AND 1)"
    by (rule disjunctive_add) (simp only: bit_or_iff and1_bit push1_and1_bit push2_and1_bit, simp)
  show ?thesis
    unfolding 1 2 by (simp only: or.assoc)
qed

lemma digit_bit:
  "bit ((x AND 1) + push_bit 1 (y AND 1) + push_bit 2 (z AND 1)) n
     \<longleftrightarrow> (n = 0 \<and> bit x 0) \<or> (n = 1 \<and> bit y 0) \<or> (n = 2 \<and> bit z 0)" for x y z :: size_type
  unfolding digit_or by (simp only: bit_or_iff and1_bit push1_and1_bit push2_and1_bit)

lemma interleaved_low:
  "m < 3 \<Longrightarrow> interleaved x y z m \<longleftrightarrow> (m = 0 \<and> bit x 0) \<or> (m = 1 \<and> bit y 0) \<or> (m = 2 \<and> bit z 0)"
  by (auto simp add: interleaved_def)

lemma interleaved_shift:
  "interleaved (drop_bit 1 x) (drop_bit 1 y) (drop_bit 1 z) m \<longleftrightarrow> interleaved x y z (m + 3)"
proof -
  have "(m + 3) div 3 = Suc (m div 3)" "(m + 3) mod 3 = m mod 3"
    by simp_all
  then show ?thesis
    by (simp add: interleaved_def bit_simps)
qed

lemma interleaved_zero: "\<not> interleaved 0 0 0 m"
  by (simp add: interleaved_def)

lemma makeCode_loop_bits:
  "(\<And>n. shift \<le> n \<Longrightarrow> \<not> bit ans n) \<Longrightarrow> shift + 3 * bitlen (largest x y z) \<le> 32 \<Longrightarrow>
   bit (snd (makeCode_loop shift ans x y z)) n
     \<longleftrightarrow> (if n < shift then bit ans n else interleaved x y z (n - shift))"
proof (induction shift ans x y z arbitrary: n rule: makeCode_loop.induct)
  case (1 shift ans x y z)
  show ?case
  proof (cases "x \<noteq> 0 \<or> y \<noteq> 0 \<or> z \<noteq> 0")
    case True
    define digit where "digit = (x AND 1) + push_bit 1 (y AND 1) + push_bit 2 (z AND 1)"
    define ans' where "ans' = ans + push_bit shift digit"
    have digit_bit': "bit digit k \<longleftrightarrow> (k = 0 \<and> bit x 0) \<or> (k = 1 \<and> bit y 0) \<or> (k = 2 \<and> bit z 0)"
      for k unfolding digit_def by (rule digit_bit)
    from True have pos: "0 < largest x y z"
      using largest_0_iff [of x y z] by auto
    then have len: "bitlen (largest x y z) = Suc (bitlen (largest (drop_bit 1 x) (drop_bit 1 y) (drop_bit 1 z)))"
      by (simp add: largest_half bitlen_pos)
    with "1.prems"(2) have room: "shift + 3 \<le> 32"
      and room': "shift + 3 + 3 * bitlen (largest (drop_bit 1 x) (drop_bit 1 y) (drop_bit 1 z)) \<le> 32"
      by simp_all
    have disj: "\<not> bit ans k \<or> \<not> bit (push_bit shift digit) k" for k
      using "1.prems"(1) [of k] by (auto simp add: bit_simps)
    have ans'_bit: "bit ans' k \<longleftrightarrow> bit ans k \<or> (shift \<le> k \<and> k < 32 \<and> bit digit (k - shift))" for k
      unfolding ans'_def using disj by (subst bit_disjunctive_add_iff) (auto simp add: bit_simps)
    have high: "\<not> bit ans' k" if "shift + 3 \<le> k" for k
      using that "1.prems"(1) [of k] by (auto simp add: ans'_bit digit_bit')
    have step: "makeCode_loop shift ans x y z
        = makeCode_loop (shift + 3) ans' (drop_bit 1 x) (drop_bit 1 y) (drop_bit 1 z)"
      using True by (subst makeCode_loop.simps) (simp add: Let_def ans'_def digit_def)
    have IH: "bit (snd (makeCode_loop (shift + 3) ans' (drop_bit 1 x) (drop_bit 1 y) (drop_bit 1 z))) n
        \<longleftrightarrow> (if n < shift + 3 then bit ans' n
             else interleaved (drop_bit 1 x) (drop_bit 1 y) (drop_bit 1 z) (n - (shift + 3)))"
      unfolding ans'_def using True digit_def high [unfolded ans'_def] room' by (rule "1.IH")
    show ?thesis
    proof (cases "n < shift")
      case True
      then show ?thesis
        unfolding step IH by (simp add: ans'_bit)
    next
      case False
      show ?thesis
      proof (cases "n < shift + 3")
        case True
        with False room have "n - shift < 3" "shift \<le> n" "n < 32"
          by simp_all
        then show ?thesis
          unfolding step IH using True False "1.prems"(1) [of n]
          by (simp add: ans'_bit interleaved_low digit_bit')
      next
        case False
        then have "n - (shift + 3) + 3 = n - shift"
          by simp
        with False show ?thesis
          unfolding step IH interleaved_shift by simp
      qed
    qed
  next
    case False
    then have "makeCode_loop shift ans x y z = (shift, ans)"
      by (subst makeCode_loop.simps) simp
    with False "1.prems"(1) [of n] show ?thesis
      by (auto simp add: interleaved_zero)
  qed
qed


lemma makeCode_cases:
  "makeCode x y z =
     (if 3 * bitlen (largest x y z) < 32 then Inr (snd (makeCode_loop 0 0 x y z))
      else Inl RangeError)"
proof (cases "makeCode_loop 0 0 x y z")
  case (Pair shift ans)
  with makeCode_loop_shift [of 0 0 x y z] show ?thesis
    by (simp add: makeCode_def)
qed

lemma makeCode_bit:
  assumes "makeCode x y z = Inr c"
  shows "bit c n \<longleftrightarrow> interleaved x y z n"
proof -
  from assms have fits: "3 * bitlen (largest x y z) < 32" and c: "c = snd (makeCode_loop 0 0 x y z)"
    by (simp_all add: makeCode_cases split: if_splits)
  have "bit (snd (makeCode_loop 0 0 x y z)) n
      \<longleftrightarrow> (if n < 0 then bit (0 :: size_type) n else interleaved x y z (n - 0))"
    using fits by (intro makeCode_loop_bits) simp_all
  then show ?thesis
    by (simp add: c)
qed

lemma interleaved_3k:
  "interleaved x y z (3 * k) \<longleftrightarrow> bit x k"
  "interleaved x y z (3 * k + 1) \<longleftrightarrow> bit y k"
  "interleaved x y z (3 * k + 2) \<longleftrightarrow> bit z k"
proof -
  have "(3 * k + 1) div 3 = k" "(3 * k + 1) mod 3 = 1" "(3 * k + 2) div 3 = k" "(3 * k + 2) mod 3 = 2"
    by presburger+
  then show "interleaved x y z (3 * k) \<longleftrightarrow> bit x k" "interleaved x y z (3 * k + 1) \<longleftrightarrow> bit y k"
    "interleaved x y z (3 * k + 2) \<longleftrightarrow> bit z k"
    unfolding interleaved_def by simp_all
qed

lemma valid_range_iff:
  "x < 1024 \<and> y < 1024 \<and> z < 1024 \<longleftrightarrow> 3 * bitlen (largest x y z) < 32" for x y z :: size_type
proof -
  have "3 * bitlen (largest x y z) < 32 \<longleftrightarrow> bitlen (largest x y z) \<le> 10"
    by presburger
  also have "\<dots> \<longleftrightarrow> largest x y z < 2 ^ 10"
    by (rule bitlen_le_iff)
  also have "\<dots> \<longleftrightarrow> unat x < 1024 \<and> unat y < 1024 \<and> unat z < 1024"
    by (auto simp add: largest_def)
  also have "\<dots> \<longleftrightarrow> x < 1024 \<and> y < 1024 \<and> z < 1024"
    by (simp add: word_less_nat_alt)
  finally show ?thesis ..
qed

text \<open>The range of coordinates on which \<^verbatim>\<open>makeCode\<close> returns a code: ten bits each.\<close>

lemma makeCode_returns_iff:
  "(\<exists>c. makeCode x y z = Inr c) \<longleftrightarrow> x < 1024 \<and> y < 1024 \<and> z < 1024"
  unfolding valid_range_iff by (simp add: makeCode_cases)

text \<open>
  The claim C6 as it is written takes as valid every triple whose interleaved result fits
  in \<^verbatim>\<open>size_type\<close>. The interleaving of (1024, 0, 0) is \<open>2 ^ 30\<close>, which fits in 32 bits,
  and \<^verbatim>\<open>makeCode(1024, 0, 0)\<close> does not return it: the loop runs eleven times, ends with
  \<open>shift = 33\<close>, and the check \<^verbatim>\<open>shift < 32\<close> throws \<^verbatim>\<open>std::range_error\<close>.
\<close>

theorem makeCode_fits_counterexample:
  "morton (unat (1024 :: size_type)) (unat (0 :: size_type)) (unat (0 :: size_type)) = 2 ^ 30
   \<and> (2 :: nat) ^ 30 < 2 ^ 32
   \<and> fst (makeCode_loop 0 0 1024 0 0) = 33
   \<and> makeCode 1024 0 0 = Inl RangeError"
proof -
  have "morton 1024 0 0 = 1073741824"
    by (simp add: morton.simps)
  moreover have "bitlen (largest 1024 0 0) = 11"
    by code_simp
  ultimately show ?thesis
    by (simp add: makeCode_loop_shift makeCode_cases)
qed

text \<open>
  C6, as amended: for all coordinates x, y, z below 1024 (ten bits each; this is the
  range on which \<^verbatim>\<open>makeCode\<close> returns, lemma \<open>makeCode_returns_iff\<close>),
  \<^verbatim>\<open>makeCode(x, y, z)\<close> returns the integer whose bit \<open>3k\<close> is bit \<open>k\<close> of x, bit \<open>3k + 1\<close> is
  bit \<open>k\<close> of y and bit \<open>3k + 2\<close> is bit \<open>k\<close> of z, for every \<open>k\<close>; consequently no other
  coordinate triple has the same code.
\<close>

theorem makeCode_interleaves:
  assumes "x < 1024" "y < 1024" "z < 1024"
  shows "\<exists>c. makeCode x y z = Inr c
    \<and> (\<forall>k. (bit c (3 * k) \<longleftrightarrow> bit x k) \<and> (bit c (3 * k + 1) \<longleftrightarrow> bit y k)
           \<and> (bit c (3 * k + 2) \<longleftrightarrow> bit z k))
    \<and> (\<forall>x' y' z'. makeCode x' y' z' = Inr c \<longrightarrow> x' = x \<and> y' = y \<and> z' = z)"
proof -
  from assms have "3 * bitlen (largest x y z) < 32"
    by (simp add: valid_range_iff [symmetric])
  then obtain c where c: "makeCode x y z = Inr c"
    by (simp add: makeCode_cases)
  have bits: "(bit c (3 * k) \<longleftrightarrow> bit x k) \<and> (bit c (3 * k + 1) \<longleftrightarrow> bit y k)
      \<and> (bit c (3 * k + 2) \<longleftrightarrow> bit z k)" for k
    by (simp only: makeCode_bit [OF c] interleaved_3k)
  have inj: "x' = x \<and> y' = y \<and> z' = z" if c': "makeCode x' y' z' = Inr c" for x' y' z'
  proof -
    have "bit x' k \<longleftrightarrow> bit x k" for k
      using makeCode_bit [OF c, of "3 * k"] makeCode_bit [OF c', of "3 * k"]
      by (simp only: interleaved_3k)
    moreover have "bit y' k \<longleftrightarrow> bit y k" for k
      using makeCode_bit [OF c, of "3 * k + 1"] makeCode_bit [OF c', of "3 * k + 1"]
      by (simp only: interleaved_3k)
    moreover have "bit z' k \<longleftrightarrow> bit z k" for k
      using makeCode_bit [OF c, of "3 * k + 2"] makeCode_bit [OF c', of "3 * k + 2"]
      by (simp only: interleaved_3k)
    ultimately show ?thesis
      by (simp add: bit_eq_iff)
  qed
  from c bits inj show ?thesis
    by blast
qed

text \<open>The amended claim at the coordinates (5, 3, 6), whose code is 371.\<close>

theorem makeCode_interleaves_witness:
  "(5 :: size_type) < 1024 \<and> (3 :: size_type) < 1024 \<and> (6 :: size_type) < 1024
   \<and> (\<exists>c. makeCode 5 3 6 = Inr c
      \<and> (\<forall>k. (bit c (3 * k) \<longleftrightarrow> bit (5 :: size_type) k)
             \<and> (bit c (3 * k + 1) \<longleftrightarrow> bit (3 :: size_type) k)
             \<and> (bit c (3 * k + 2) \<longleftrightarrow> bit (6 :: size_type) k))
      \<and> (\<forall>x' y' z'. makeCode x' y' z' = Inr c \<longrightarrow> x' = 5 \<and> y' = 3 \<and> z' = 6))
   \<and> makeCode 5 3 6 = Inr 371"
proof -
  have 1: "(5 :: size_type) < 1024" and 2: "(3 :: size_type) < 1024" and 3: "(6 :: size_type) < 1024"
    by (simp_all add: word_less_nat_alt)
  have 4: "makeCode 5 3 6 = Inr 371"
    by code_simp
  from 1 2 3 makeCode_interleaves [OF 1 2 3] 4 show ?thesis
    by (intro conjI)
qed

lemma bit_digit_plus:
  fixes d m :: nat
  assumes "d < 8"
  shows "bit (d + 8 * m) n \<longleftrightarrow> (if n < 3 then bit d n else bit m (n - 3))"
proof -
  have d: "take_bit 3 d = d"
    using assms by (simp add: take_bit_nat_eq_self)
  have m: "8 * m = push_bit 3 m"
    by (simp add: push_bit_eq_mult)
  have "bit (take_bit 3 d + push_bit 3 m) n \<longleftrightarrow> bit (take_bit 3 d) n \<or> bit (push_bit 3 m) n"
    by (rule bit_disjunctive_add_iff) (auto simp add: bit_take_bit_iff bit_push_bit_iff)
  then show ?thesis
    unfolding d m by (auto simp add: bit_push_bit_iff) (metis bit_take_bit_iff d)
qed

lemma digit_nat_bits:
  fixes x y z :: nat
  shows "bit (x mod 2 + 2 * (y mod 2) + 4 * (z mod 2)) 0 \<longleftrightarrow> bit x 0"
    and "bit (x mod 2 + 2 * (y mod 2) + 4 * (z mod 2)) 1 \<longleftrightarrow> bit y 0"
    and "bit (x mod 2 + 2 * (y mod 2) + 4 * (z mod 2)) 2 \<longleftrightarrow> bit z 0"
    and "x mod 2 + 2 * (y mod 2) + 4 * (z mod 2) < 8"
  by (cases "even x"; cases "even y"; cases "even z"; simp add: mod_2_eq_odd bit_iff_odd)+

lemma bit_morton:
  "bit (morton x y z) n \<longleftrightarrow>
     (n mod 3 = 0 \<and> bit x (n div 3)) \<or> (n mod 3 = 1 \<and> bit y (n div 3))
     \<or> (n mod 3 = 2 \<and> bit z (n div 3))"
proof (induction x y z arbitrary: n rule: morton.induct)
  case (1 x y z)
  show ?case
  proof (cases "x = 0 \<and> y = 0 \<and> z = 0")
    case True
    then show ?thesis
      by (simp add: morton.simps)
  next
    case False
    define d where "d = x mod 2 + 2 * (y mod 2) + 4 * (z mod 2)"
    have d8: "d < 8" and d0: "bit d 0 \<longleftrightarrow> bit x 0" and d1: "bit d 1 \<longleftrightarrow> bit y 0"
      and d2: "bit d 2 \<longleftrightarrow> bit z 0"
      unfolding d_def by (simp_all only: digit_nat_bits)
    have unfold: "morton x y z = d + 8 * morton (x div 2) (y div 2) (z div 2)"
      using False morton.simps [of x y z] by (auto simp add: d_def)
    have IH: "bit (morton (x div 2) (y div 2) (z div 2)) k \<longleftrightarrow>
        (k mod 3 = 0 \<and> bit (x div 2) (k div 3)) \<or> (k mod 3 = 1 \<and> bit (y div 2) (k div 3))
        \<or> (k mod 3 = 2 \<and> bit (z div 2) (k div 3))" for k
      using False by (rule "1.IH")
    have half: "bit (a div 2) k \<longleftrightarrow> bit a (Suc k)" for a k :: nat
      by (simp add: bit_Suc)
    show ?thesis
    proof (cases "n < 3")
      case True
      then consider "n = 0" | "n = 1" | "n = 2"
        by linarith
      then show ?thesis
      proof cases
        case 1
        show ?thesis
          unfolding unfold bit_digit_plus [OF d8] 1 using d0 by simp
      next
        case 2
        show ?thesis
          unfolding unfold bit_digit_plus [OF d8] 2 using d1 by simp
      next
        case 3
        show ?thesis
          unfolding unfold bit_digit_plus [OF d8] 3 using d2 by simp
      qed
    next
      case False
      then have "(n - 3) mod 3 = n mod 3" "Suc ((n - 3) div 3) = n div 3"
        by presburger+
      with False show ?thesis
        unfolding unfold bit_digit_plus [OF d8] IH half by simp
    qed
  qed
qed

lemma makeCode_unat:
  assumes "makeCode x y z = Inr c"
  shows "unat c = morton (unat x) (unat y) (unat z)"
proof (rule bit_eqI)
  fix n
  show "bit (unat c) n \<longleftrightarrow> bit (morton (unat x) (unat y) (unat z)) n"
    unfolding bit_morton by (simp add: bit_unsigned_iff makeCode_bit [OF assms] interleaved_def)
qed

text \<open>
  C9: for every coordinate triple (x, y, z), \<^verbatim>\<open>makeCode\<close> either returns normally or throws
  \<^verbatim>\<open>std::range_error\<close>; it throws precisely when three times the bit length of the largest
  coordinate reaches or exceeds the 32 bits of \<^verbatim>\<open>size_type\<close>, and a code that is returned
  is not truncated: as a number it is the full interleaving of the three coordinates.
\<close>

theorem makeCode_range_error:
  "if 32 \<le> 3 * bitlen (largest x y z) then makeCode x y z = Inl RangeError
   else \<exists>c. makeCode x y z = Inr c \<and> unat c = morton (unat x) (unat y) (unat z)"
proof (cases "32 \<le> 3 * bitlen (largest x y z)")
  case True
  then show ?thesis
    by (simp add: makeCode_cases)
next
  case False
  then obtain c where c: "makeCode x y z = Inr c"
    by (simp add: makeCode_cases)
  with False makeCode_unat [OF c] show ?thesis
    by simp
qed

theorem makeCode_range_error_witness:
  "makeCode 1024 0 0 = Inl RangeError \<and> makeCode 5 3 6 = Inr 371"
proof -
  have 1: "bitlen (largest 1024 0 0) = 11" "bitlen (largest 5 3 6) = 3"
    by code_simp+
  have 2: "morton 5 3 6 = 371"
    by code_simp
  show ?thesis
    using makeCode_range_error [of 1024 0 0] makeCode_range_error [of 5 3 6]
    by (auto simp add: 1 2 word_unat_eq_iff)
qed

section \<open>The SplatTree constructor: results\<close>

text \<open>
  C10: the SplatTree constructor throws \<^verbatim>\<open>std::length_error\<close> whenever the size of the input
  splat vector exceeds the maximum value of \<^verbatim>\<open>size_type\<close>, and it does so before any tree
  state is built: whatever the splats and the grid are, the outcome is the error and no
  tree.
\<close>

theorem SplatTree_length_error:
  "length boxes > 0xFFFFFFFF \<Longrightarrow> SplatTree_new boxes nv = Inl LengthError"
  by (simp add: SplatTree_new_def)

theorem SplatTree_length_error_witness:
  "length (replicate (2 ^ 32) (((0, 0, 0), (0, 0, 0)) :: ibox)) > 0xFFFFFFFF
   \<and> SplatTree_new (replicate (2 ^ 32) ((0, 0, 0), (0, 0, 0))) (2, 2, 2) = Inl LengthError"
proof -
  have 1: "length (replicate (2 ^ 32) (((0, 0, 0), (0, 0, 0)) :: ibox)) > 0xFFFFFFFF"
    by simp
  from 1 SplatTree_length_error [OF 1] show ?thesis
    by (rule conjI)
qed

subsection \<open>Counting, prefix sums and slices of a sorted list\<close>

lemma count_entries_Inr:
  "count_entries es st = Inr st' \<Longrightarrow>
     length st' = length st \<and> (\<forall>e \<in> set es. key e < length st)
     \<and> (\<forall>i < length st. st' ! i = st ! i + of_nat (length (filter (\<lambda>e. key e = i) es)))"
proof (induction es arbitrary: st)
  case Nil
  then show ?case by simp
next
  case (Cons e es)
  from Cons.prems have inr: "key e < length st"
    and rest: "count_entries es (st[key e := st ! key e + 1]) = Inr st'"
    by (simp_all add: key_def split: if_splits)
  from Cons.IH [OF rest] inr show ?case
    by (auto simp add: nth_list_update)
qed

lemma length_prefix_sum [simp]: "length (prefix_sum sm cs) = length cs"
  by (induction cs arbitrary: sm) simp_all

lemma nth_prefix_sum:
  "i < length cs \<Longrightarrow> prefix_sum sm cs ! i = sm + sum_list (take i cs)"
proof (induction cs arbitrary: sm i)
  case Nil
  then show ?case by simp
next
  case (Cons c cs)
  then show ?case
    by (cases i) (simp_all add: add.assoc)
qed

lemma length_filter_less_Suc:
  "length (filter (\<lambda>x. f x < Suc i) xs)
     = length (filter (\<lambda>x. f x < i) xs) + length (filter (\<lambda>x. f x = i) xs)" for f :: "'a \<Rightarrow> nat"
  by (induction xs) auto

lemma sum_counts:
  "(\<Sum>j \<leftarrow> [0..<i]. length (filter (\<lambda>x. f x = j) xs)) = length (filter (\<lambda>x. f x < i) xs)"
  for f :: "'a \<Rightarrow> nat"
  by (induction i) (simp_all add: length_filter_less_Suc)

lemma sorted_take_filter:
  "sorted (map f xs) \<Longrightarrow> take (length (filter (\<lambda>x. f x < c) xs)) xs = filter (\<lambda>x. f x < c) xs"
  for f :: "'a \<Rightarrow> nat"
proof (induction xs)
  case Nil
  then show ?case by simp
next
  case (Cons x xs)
  show ?case
  proof (cases "f x < c")
    case True
    with Cons show ?thesis by simp
  next
    case False
    with Cons.prems have "\<forall>y \<in> set xs. \<not> f y < c"
      by auto
    then have "filter (\<lambda>x. f x < c) xs = []"
      by (simp add: filter_empty_conv)
    with False show ?thesis by simp
  qed
qed

lemma sorted_drop_filter:
  "sorted (map f xs) \<Longrightarrow>
     drop (length (filter (\<lambda>x. f x < c) xs)) xs = filter (\<lambda>x. \<not> f x < c) xs"
  for f :: "'a \<Rightarrow> nat"
proof (induction xs)
  case Nil
  then show ?case by simp
next
  case (Cons x xs)
  show ?case
  proof (cases "f x < c")
    case True
    with Cons show ?thesis by simp
  next
    case False
    with Cons.prems have "\<forall>y \<in> set xs. \<not> f y < c"
      by auto
    then have "filter (\<lambda>x. f x < c) xs = []" "filter (\<lambda>x. \<not> f x < c) xs = xs"
      by (simp_all add: filter_empty_conv filter_id_conv)
    with False show ?thesis by simp
  qed
qed

lemma sorted_slice:
  fixes f :: "'a \<Rightarrow> nat"
  assumes "sorted (map f xs)"
  shows "take (length (filter (\<lambda>x. f x < Suc c) xs) - length (filter (\<lambda>x. f x < c) xs))
           (drop (length (filter (\<lambda>x. f x < c) xs)) xs)
         = filter (\<lambda>x. f x = c) xs"
proof -
  let ?hi = "filter (\<lambda>x. \<not> f x < c) xs"
  have hi: "sorted (map f ?hi)"
    using assms by (rule sorted_filter)
  have len: "length (filter (\<lambda>x. f x < Suc c) xs) - length (filter (\<lambda>x. f x < c) xs)
      = length (filter (\<lambda>x. f x < Suc c) ?hi)"
  proof -
    have "filter (\<lambda>x. f x < Suc c) ?hi = filter (\<lambda>x. f x = c) xs"
      by (auto intro: filter_cong)
    then show ?thesis
      by (simp add: length_filter_less_Suc)
  qed
  have "take (length (filter (\<lambda>x. f x < Suc c) ?hi)) ?hi = filter (\<lambda>x. f x < Suc c) ?hi"
    using hi by (rule sorted_take_filter)
  also have "\<dots> = filter (\<lambda>x. f x = c) xs"
    by (auto intro: filter_cong)
  finally show ?thesis
    by (simp only: len sorted_drop_filter [OF assms])
qed


lemma length_filter_sort_key:
  "length (filter P (sort_key f xs)) = length (filter P xs)"
  by (simp add: filter_sort)

lemma sorted_key_sort: "sorted (map key (sort_key pos es))"
proof -
  have "sorted (map pos (sort_key pos es))"
    by (rule sorted_sort_key)
  then show ?thesis
    by (simp add: sorted_map key_def [abs_def] sorted_wrt_iff_nth_less word_le_nat_alt)
qed

lemma unat_word_of_nat_32: "n < 2 ^ 32 \<Longrightarrow> unat (word_of_nat n :: size_type) = n"
  by (simp add: unat_of_nat)

lemma key_eq_iff: "c < 2 ^ 32 \<Longrightarrow> key e = c \<longleftrightarrow> pos e = word_of_nat c"
  unfolding key_def by (simp add: word_unat_eq_iff unat_word_of_nat_32)

lemma key_less: "key e < 2 ^ 32"
  unfolding key_def using unsigned_less [of "pos e"] by simp

lemma filter_key_sort:
  "filter (\<lambda>e. key e = c) (sort_key pos es) = filter (\<lambda>e. key e = c) es"
proof (cases "c < 2 ^ 32")
  case True
  then show ?thesis
    by (simp add: key_eq_iff sort_key_stable)
next
  case False
  then have "key e \<noteq> c" for e
    using key_less [of e] by auto
  then show ?thesis
    by simp
qed

lemma flatten_entries_Inr:
  assumes "flatten_entries ls es = Inr t"
  defines "N \<equiv> unat (last ls + 1)"
  shows "levelStart t = ls" and "ids t = map splatId (sort_key pos es)"
    and "length (start_t t) = N" and "\<forall>e \<in> set es. key e < N"
    and "\<forall>i < N. start_t t ! i = word_of_nat (length (filter (\<lambda>e. key e < i) es))"
proof -
  from assms(1) obtain counts where
    counts: "count_entries (sort_key pos es) (replicate N 0) = Inr counts"
    and t: "t = \<lparr>levelStart = ls, start_t = prefix_sum 0 counts,
                ids = map splatId (sort_key pos es)\<rparr>"
    by (auto simp add: flatten_entries_def N_def Let_def split: sum.splits)
  note c = count_entries_Inr [OF counts]
  from c have len: "length counts = N"
    by simp
  from c have cnt: "counts ! i = word_of_nat (length (filter (\<lambda>e. key e = i) es))" if "i < N" for i
    using that by (simp add: length_filter_sort_key)
  show "levelStart t = ls" "ids t = map splatId (sort_key pos es)"
    by (simp_all add: t)
  show "length (start_t t) = N"
    by (simp add: t len)
  from c show "\<forall>e \<in> set es. key e < N"
    by simp
  have counts_eq: "counts = map (\<lambda>j. word_of_nat (length (filter (\<lambda>e. key e = j) es))) [0..<N]"
    by (rule nth_equalityI) (simp_all add: len cnt)
  show "\<forall>i < N. start_t t ! i = word_of_nat (length (filter (\<lambda>e. key e < i) es))"
  proof (intro allI impI)
    fix i
    assume i: "i < N"
    have "start_t t ! i = sum_list (take i counts)"
      using i by (simp add: t nth_prefix_sum len)
    also have "take i counts = map (\<lambda>j. word_of_nat (length (filter (\<lambda>e. key e = j) es))) [0..<i]"
      using i by (simp add: counts_eq take_map)
    also have "sum_list \<dots> = word_of_nat (\<Sum>j \<leftarrow> [0..<i]. length (filter (\<lambda>e. key e = j) es))"
      by (simp add: sum_list_of_nat [symmetric] comp_def)
    finally show "start_t t ! i = word_of_nat (length (filter (\<lambda>e. key e < i) es))"
      by (simp only: sum_counts)
  qed
qed

lemma flatten_entries_props:
  assumes t: "flatten_entries ls es = Inr t"
    and small: "length es < 2 ^ 32"
    and strict: "\<forall>e \<in> set es. Suc (key e) < length (start_t t)"
  shows "sorted (map unat (start_t t))"
    and "start_t t \<noteq> [] \<Longrightarrow> unat (last (start_t t)) = length (ids t)"
    and "Suc c < length (start_t t) \<Longrightarrow>
      take (unat (start_t t ! Suc c) - unat (start_t t ! c)) (drop (unat (start_t t ! c)) (ids t))
        = map splatId (filter (\<lambda>e. key e = c) es)"
proof -
  note f = flatten_entries_Inr [OF t]
  have val: "unat (start_t t ! i) = length (filter (\<lambda>e. key e < i) es)" if "i < length (start_t t)" for i
  proof -
    have "length (filter (\<lambda>e. key e < i) es) \<le> length es"
      by simp
    with small have "length (filter (\<lambda>e. key e < i) es) < 2 ^ 32"
      by linarith
    with that f(3,5) show ?thesis
      by (simp add: unat_word_of_nat_32)
  qed
  show "sorted (map unat (start_t t))"
  proof (unfold sorted_iff_nth_mono, intro allI impI)
    fix i j
    assume "i \<le> j" "j < length (map unat (start_t t))"
    then have ij: "i \<le> j" "j < length (start_t t)" "i < length (start_t t)"
      by simp_all
    have "length (filter (\<lambda>e. key e < i) es) \<le> length (filter (\<lambda>e. key e < j) es)"
    proof -
      have "filter (\<lambda>e. key e < i) es = filter (\<lambda>e. key e < i) (filter (\<lambda>e. key e < j) es)"
        using ij(1) by (auto intro: filter_cong)
      then show ?thesis
        by (metis length_filter_le)
    qed
    with ij show "map unat (start_t t) ! i \<le> map unat (start_t t) ! j"
      by (simp add: val)
  qed
  show "unat (last (start_t t)) = length (ids t)" if "start_t t \<noteq> []"
  proof -
    from that have last: "last (start_t t) = start_t t ! (length (start_t t) - 1)"
      by (rule last_conv_nth)
    have "filter (\<lambda>e. key e < length (start_t t) - 1) es = es"
      using strict by (auto simp add: filter_id_conv)
    with that show ?thesis
      unfolding last by (simp add: val f(2))
  qed
  show "take (unat (start_t t ! Suc c) - unat (start_t t ! c)) (drop (unat (start_t t ! c)) (ids t))
        = map splatId (filter (\<lambda>e. key e = c) es)" if "Suc c < length (start_t t)"
  proof -
    let ?S = "sort_key pos es"
    from that have v: "unat (start_t t ! Suc c) = length (filter (\<lambda>e. key e < Suc c) ?S)"
      "unat (start_t t ! c) = length (filter (\<lambda>e. key e < c) ?S)"
      by (simp_all add: val length_filter_sort_key)
    have "take (unat (start_t t ! Suc c) - unat (start_t t ! c)) (drop (unat (start_t t ! c)) ?S)
        = filter (\<lambda>e. key e = c) ?S"
      unfolding v by (rule sorted_slice) (rule sorted_key_sort)
    then have "map splatId (take (unat (start_t t ! Suc c) - unat (start_t t ! c))
        (drop (unat (start_t t ! c)) ?S)) = map splatId (filter (\<lambda>e. key e = c) es)"
      by (simp only: filter_key_sort)
    then show ?thesis
      by (simp only: f(2) take_map drop_map)
  qed
qed

subsection \<open>The levels\<close>

lemma collect_Inr: "collect rs = Inr vs \<Longrightarrow> rs = map Inr vs"
proof (induction rs arbitrary: vs)
  case Nil
  then show ?case by simp
next
  case (Cons r rs)
  then show ?case
    by (auto split: sum.splits)
qed

lemma collect_map_Inr: "collect (map Inr vs) = Inr vs"
  by (induction vs) simp_all

lemma find_maxLevel_bound: "sz \<le> 2 ^ find_maxLevel sz m"
proof (induction sz m rule: find_maxLevel.induct)
  case (1 sz maxLevel)
  show ?case
  proof (cases "2 ^ maxLevel < sz")
    case True
    with "1.IH" show ?thesis
      by (subst find_maxLevel.simps) simp
  next
    case False
    then show ?thesis
      by (subst find_maxLevel.simps) simp
  qed
qed

lemma push_bit_3i:
  assumes "i \<le> 10"
  shows "push_bit (3 * i mod 32) (1 :: size_type) = word_of_nat (8 ^ i)"
proof -
  from assms have "3 * i mod 32 = 3 * i"
    by simp
  moreover have "(2 :: size_type) ^ (3 * i) = 8 ^ i"
    by (simp add: power_mult)
  ultimately show ?thesis
    by (simp add: push_bit_eq_mult)
qed

lemma fill_levelStart_val:
  "n \<le> 11 \<Longrightarrow>
   fill_levelStart (map (\<lambda>i. word_of_nat (levelStart_val i)) [0..<Suc k]) [k..<n]
     = map (\<lambda>i. word_of_nat (levelStart_val i)) [0..<Suc (max k n)]"
proof (induction "n - k" arbitrary: k)
  case 0
  then show ?case
    by (simp add: max_def)
next
  case (Suc d)
  then have kn: "k < n" and d: "d = n - Suc k" and k10: "k \<le> 10"
    by simp_all
  have "fill_levelStart (map (\<lambda>i. word_of_nat (levelStart_val i)) [0..<Suc k]) [k..<n]
      = fill_levelStart (map (\<lambda>i. word_of_nat (levelStart_val i)) [0..<Suc k]
          @ [word_of_nat (levelStart_val k) + push_bit (3 * k mod 32) 1]) [Suc k..<n]"
    using kn by (simp add: upt_conv_Cons del: push_bit_of_1)
  also have "map (\<lambda>i. word_of_nat (levelStart_val i)) [0..<Suc k]
          @ [word_of_nat (levelStart_val k) + push_bit (3 * k mod 32) (1 :: size_type)]
      = map (\<lambda>i. word_of_nat (levelStart_val i)) [0..<Suc (Suc k)]"
    unfolding push_bit_3i [OF k10] by simp
  also have "fill_levelStart \<dots> [Suc k..<n]
      = map (\<lambda>i. word_of_nat (levelStart_val i)) [0..<Suc (max (Suc k) n)]"
    using d \<open>n \<le> 11\<close> by (rule Suc.hyps(1))
  finally show ?case
    using kn by (simp add: max_def)
qed

lemma levelStart_eq:
  "maxLevel \<le> 10 \<Longrightarrow>
   fill_levelStart [0] [0..<maxLevel + 1]
     = map (\<lambda>i. word_of_nat (levelStart_val i)) [0..<maxLevel + 2]"
  using fill_levelStart_val [of "maxLevel + 1" 0] by simp

lemma levelStart_val_mono: "i \<le> j \<Longrightarrow> levelStart_val i \<le> levelStart_val j"
  by (induction j) (auto simp add: le_Suc_eq)

lemma levelStart_val_closed: "7 * levelStart_val i + 1 = 8 ^ i"
  by (induction i) simp_all

lemma levelStart_val_small:
  assumes "i \<le> 11"
  shows "levelStart_val i < 2 ^ 32"
proof -
  have "(8 :: nat) ^ i \<le> 8 ^ 11"
    using assms by (intro power_increasing) simp_all
  also have "(8 :: nat) ^ 11 = 8589934592"
    by simp
  finally have "7 * levelStart_val i + 1 \<le> 8589934592"
    unfolding levelStart_val_closed [symmetric] .
  then have "levelStart_val i \<le> 1227133513"
    by linarith
  then show ?thesis
    by simp
qed

lemma levelStart_val_less_pow: "levelStart_val i < 8 ^ i"
  using levelStart_val_closed [of i] by linarith

subsection \<open>The cells of a splat\<close>

lemma morton_bound:
  "x < 2 ^ l \<Longrightarrow> y < 2 ^ l \<Longrightarrow> z < 2 ^ l \<Longrightarrow> morton x y z < 8 ^ l"
proof (induction l arbitrary: x y z)
  case 0
  then show ?case
    by (simp add: morton.simps)
next
  case (Suc l)
  show ?case
  proof (cases "x = 0 \<and> y = 0 \<and> z = 0")
    case True
    then show ?thesis
      by (simp add: morton.simps)
  next
    case False
    from Suc.prems have "x div 2 < 2 ^ l" "y div 2 < 2 ^ l" "z div 2 < 2 ^ l"
      by simp_all
    then have "morton (x div 2) (y div 2) (z div 2) < 8 ^ l"
      by (rule Suc.IH)
    moreover have "x mod 2 + 2 * (y mod 2) + 4 * (z mod 2) < 8"
      by (rule digit_nat_bits)
    moreover have "morton x y z
        = x mod 2 + 2 * (y mod 2) + 4 * (z mod 2) + 8 * morton (x div 2) (y div 2) (z div 2)"
      using False morton.simps [of x y z] by auto
    ultimately show ?thesis
      by simp
  qed
qed

lemma unat_word_of_int_small:
  "0 \<le> k \<Longrightarrow> k < 2 ^ 32 \<Longrightarrow> unat (word_of_int k :: size_type) = nat k"
  by (simp add: unat_eq_nat_uint word_of_int_inverse [OF refl] del: nat_uint_eq) 

lemma cell_entry_Inr:
  assumes "cell_entry base sid x y z = Inr e"
    and "0 \<le> x" "x < 2 ^ l" "0 \<le> y" "y < 2 ^ l" "0 \<le> z" "z < 2 ^ l" "l \<le> 10"
  shows "splatId e = sid \<and> (\<exists>code. pos e = base + code \<and> unat code < 8 ^ l)"
proof -
  from assms(1) obtain code where code: "makeCode (word_of_int x) (word_of_int y) (word_of_int z) = Inr code"
    and e: "e = \<lparr>pos = base + code, splatId = sid\<rparr>"
    by (auto simp add: cell_entry_def split: sum.splits)
  have "(2 :: int) ^ l \<le> 2 ^ 10"
    using \<open>l \<le> 10\<close> by (intro power_increasing) simp_all
  then have small: "k < 2 ^ l \<Longrightarrow> k < 2 ^ 32" for k :: int
    by simp
  have u: "unat (word_of_int x :: size_type) = nat x" "unat (word_of_int y :: size_type) = nat y"
    "unat (word_of_int z :: size_type) = nat z"
    using assms small by (simp_all add: unat_word_of_int_small)
  have n: "nat x < 2 ^ l" "nat y < 2 ^ l" "nat z < 2 ^ l"
    using assms by (simp_all add: nat_less_iff)
  have "unat code = morton (nat x) (nat y) (nat z)"
    using makeCode_unat [OF code] by (simp only: u)
  also have "\<dots> < 8 ^ l"
    using n by (rule morton_bound)
  finally show ?thesis
    using e by auto
qed

lemma axis_loop_Inr:
  "axis_loop axes shift = Inr shift' \<Longrightarrow> (lo, hi, n) \<in> set axes \<Longrightarrow>
     0 \<le> lo \<and> lo < int n \<and> 0 \<le> hi \<and> hi < int n"
proof (induction axes arbitrary: shift)
  case Nil
  then show ?case by simp
next
  case (Cons a axes)
  obtain lo' hi' n' where a: "a = (lo', hi', n')"
    by (cases a)
  from Cons.prems(1) have ok: "0 \<le> lo'" "lo' < int n'" "0 \<le> hi'" "hi' < int n'"
    and rest: "axis_loop axes (shift_loop lo' hi' shift) = Inr shift'"
    by (simp_all add: a split: if_splits)
  from Cons.prems(2) consider "(lo, hi, n) = (lo', hi', n')" | "(lo, hi, n) \<in> set axes"
    by (auto simp add: a)
  then show ?case
  proof cases
    case 1
    with ok show ?thesis by simp
  next
    case 2
    with rest show ?thesis by (rule Cons.IH)
  qed
qed

lemma drop_bit_bounds:
  fixes k :: int
  assumes "0 \<le> k" "k < 2 ^ m" "s \<le> m"
  shows "0 \<le> drop_bit s k" "drop_bit s k < 2 ^ (m - s)"
proof -
  show "0 \<le> drop_bit s k"
    using assms(1) by simp
  have "(2 :: int) ^ m = 2 ^ s * 2 ^ (m - s)"
    using assms(3) by (simp flip: power_add)
  with assms(2) have "k < 2 ^ s * 2 ^ (m - s)"
    by simp
  moreover have "2 ^ s * (k div 2 ^ s) \<le> k"
  proof -
    have "k = 2 ^ s * (k div 2 ^ s) + k mod 2 ^ s"
      by (rule mult_div_mod_eq [symmetric])
    moreover have "0 \<le> k mod 2 ^ s"
      by simp
    ultimately show ?thesis
      by linarith
  qed
  ultimately have "2 ^ s * (k div 2 ^ s) < 2 ^ s * 2 ^ (m - s)"
    by linarith
  then have "k div 2 ^ s < 2 ^ (m - s)"
    by (simp add: mult_less_cancel_left_pos)
  then show "drop_bit s k < 2 ^ (m - s)"
    by (simp add: drop_bit_eq_div)
qed


lemma splat_entries_Inr:
  assumes es': "splat_entries maxLevel ls (n0, n1, n2) sid ((lo0, lo1, lo2), (hi0, hi1, hi2)) = Inr es'"
    and n: "n0 \<le> 2 ^ maxLevel" "n1 \<le> 2 ^ maxLevel" "n2 \<le> 2 ^ maxLevel"
    and m: "maxLevel \<le> 10"
    and e: "e \<in> set es'"
  shows "splatId e = sid
    \<and> (\<exists>level code. level \<le> maxLevel \<and> pos e = ls ! level + code \<and> unat code < 8 ^ level)"
proof -
  define axes where "axes = [(lo0, hi0, n0), (lo1, hi1, n1), (lo2, hi2, n2)]"
  from es' obtain shift where shift: "axis_loop axes 0 = Inr shift" and le: "shift \<le> maxLevel"
    and coll: "collect (concat (map (\<lambda>z. concat (map (\<lambda>y. map (\<lambda>x.
                   cell_entry (ls ! (maxLevel - shift)) sid x y z)
                 [drop_bit shift lo0 .. drop_bit shift hi0])
                 [drop_bit shift lo1 .. drop_bit shift hi1]))
                 [drop_bit shift lo2 .. drop_bit shift hi2])) = Inr es'"
    by (auto simp add: splat_entries_def axes_def Let_def split: sum.splits if_splits)
  from e have "Inr e \<in> set (map Inr es')"
    by simp
  then have "Inr e \<in> set (concat (map (\<lambda>z. concat (map (\<lambda>y. map (\<lambda>x.
                   cell_entry (ls ! (maxLevel - shift)) sid x y z)
                 [drop_bit shift lo0 .. drop_bit shift hi0])
                 [drop_bit shift lo1 .. drop_bit shift hi1]))
                 [drop_bit shift lo2 .. drop_bit shift hi2]))"
    by (simp only: collect_Inr [OF coll])
  then obtain x y z where x: "drop_bit shift lo0 \<le> x" "x \<le> drop_bit shift hi0"
    and y: "drop_bit shift lo1 \<le> y" "y \<le> drop_bit shift hi1"
    and z: "drop_bit shift lo2 \<le> z" "z \<le> drop_bit shift hi2"
    and cell: "cell_entry (ls ! (maxLevel - shift)) sid x y z = Inr e"
    by auto
  have axis: "0 \<le> drop_bit shift lo \<and> drop_bit shift hi < 2 ^ (maxLevel - shift)"
    if "(lo, hi, k) \<in> set axes" "k \<le> 2 ^ maxLevel" for lo hi k
  proof -
    from axis_loop_Inr [OF shift that(1)] have "0 \<le> lo" "0 \<le> hi" "hi < int k"
      by simp_all
    moreover from that(2) have "int k \<le> 2 ^ maxLevel"
      by (metis of_nat_le_iff of_nat_numeral of_nat_power)
    ultimately have "0 \<le> lo" "0 \<le> hi" "hi < 2 ^ maxLevel"
      by linarith+
    with le show ?thesis
      by (simp add: drop_bit_bounds)
  qed
  have mem: "(lo0, hi0, n0) \<in> set axes" "(lo1, hi1, n1) \<in> set axes" "(lo2, hi2, n2) \<in> set axes"
    by (simp_all add: axes_def)
  have "0 \<le> x" "x < 2 ^ (maxLevel - shift)"
    using axis [OF mem(1) n(1)] x by linarith+
  moreover have "0 \<le> y" "y < 2 ^ (maxLevel - shift)"
    using axis [OF mem(2) n(2)] y by linarith+
  moreover have "0 \<le> z" "z < 2 ^ (maxLevel - shift)"
    using axis [OF mem(3) n(3)] z by linarith+
  moreover have "maxLevel - shift \<le> 10"
    using m by simp
  ultimately have "splatId e = sid
      \<and> (\<exists>code. pos e = ls ! (maxLevel - shift) + code \<and> unat code < 8 ^ (maxLevel - shift))"
    by (rule cell_entry_Inr [OF cell])
  moreover have "maxLevel - shift \<le> maxLevel"
    by simp
  ultimately show ?thesis
    by blast
qed

subsection \<open>The entries of all splats\<close>

lemma find_maxLevel_le: "sz \<le> 2 ^ k \<Longrightarrow> m \<le> k \<Longrightarrow> find_maxLevel sz m \<le> k"
proof (induction sz m rule: find_maxLevel.induct)
  case (1 sz maxLevel)
  show ?case
  proof (cases "2 ^ maxLevel < sz")
    case True
    with "1.prems" have "(2 :: nat) ^ maxLevel < 2 ^ k"
      by linarith
    then have "maxLevel < k"
      by simp
    with True "1.IH" "1.prems" show ?thesis
      by (subst find_maxLevel.simps) simp
  next
    case False
    with "1.prems" show ?thesis
      by (subst find_maxLevel.simps) simp
  qed
qed

lemma all_entries_Inr:
  assumes "all_entries maxLevel ls nv boxes = Inr es"
  obtains ess where "es = concat ess" "length ess = length boxes"
    "\<And>i. i < length boxes \<Longrightarrow>
       splat_entries maxLevel ls nv (word_of_nat i) (boxes ! i) = Inr (ess ! i)"
proof -
  from assms obtain ess where
    coll: "collect (map (\<lambda>(i, box). splat_entries maxLevel ls nv (word_of_nat i) box)
             (zip [0..<length boxes] boxes)) = Inr ess"
    and es: "es = concat ess"
    by (auto simp add: all_entries_def split: sum.splits)
  note eq = collect_Inr [OF coll]
  from eq have "length (map (\<lambda>(i, box). splat_entries maxLevel ls nv (word_of_nat i) box)
             (zip [0..<length boxes] boxes)) = length (map Inr ess :: (error + Entry list) list)"
    by (rule arg_cong)
  then have len: "length ess = length boxes"
    by simp
  have "splat_entries maxLevel ls nv (word_of_nat i) (boxes ! i) = Inr (ess ! i)"
    if "i < length boxes" for i
  proof -
    from eq have "map (\<lambda>(i, box). splat_entries maxLevel ls nv (word_of_nat i) box)
             (zip [0..<length boxes] boxes) ! i = (map Inr ess :: (error + Entry list) list) ! i"
      by (rule arg_cong)
    with that len show ?thesis
      by simp
  qed
  with es len show ?thesis
    by (rule that)
qed

lemma sorted_concat_indexed:
  fixes g :: "'a \<Rightarrow> nat"
  assumes "\<And>i x. i < length xss \<Longrightarrow> x \<in> set (xss ! i) \<Longrightarrow> g x = k + i"
  shows "sorted (map g (concat xss)) \<and> (\<forall>x \<in> set (concat xss). k \<le> g x)"
  using assms
proof (induction xss arbitrary: k)
  case Nil
  then show ?case by simp
next
  case (Cons xs xss)
  have head: "g x = k" if "x \<in> set xs" for x
    using Cons.prems [of 0 x] that by simp
  have "g x = Suc k + i" if "i < length xss" "x \<in> set (xss ! i)" for i x
    using Cons.prems [of "Suc i" x] that by simp
  then have tail: "sorted (map g (concat xss))" "\<forall>x \<in> set (concat xss). Suc k \<le> g x"
    using Cons.IH [of "Suc k"] by blast+
  have "sorted (map g xs)"
    using head by (simp add: sorted_wrt_iff_nth_less)
  with head tail show ?case
    by (force simp add: sorted_append)
qed

subsection \<open>The arrays of the tree\<close>

lemma SplatTree_new_Inr:
  assumes "SplatTree_new boxes (n0, n1, n2) = Inr t"
  defines "maxLevel \<equiv> find_maxLevel (max (max n0 n1) n2) 0"
  defines "ls \<equiv> fill_levelStart [0] [0..<maxLevel + 1]"
  obtains es where "length boxes \<le> 0xFFFFFFFF" "all_entries maxLevel ls (n0, n1, n2) boxes = Inr es"
    "flatten_entries ls es = Inr t"
  using assms
  by (auto simp add: SplatTree_new_def Let_def split: if_splits sum.splits)

lemma last_levelStart:
  assumes "maxLevel \<le> 10"
  shows "last (fill_levelStart [0] [0..<maxLevel + 1])
    = word_of_nat (levelStart_val (maxLevel + 1))"
  unfolding levelStart_eq [OF assms] by (simp add: last_map)

lemma nth_levelStart:
  assumes "maxLevel \<le> 10" "level \<le> maxLevel"
  shows "fill_levelStart [0] [0..<maxLevel + 1] ! level = word_of_nat (levelStart_val level)"
  unfolding levelStart_eq [OF assms(1)] using assms(2) by (simp del: upt_Suc)

lemma entry_key_bound:
  assumes m: "maxLevel \<le> 10" and level: "level \<le> maxLevel"
    and pos: "pos e = fill_levelStart [0] [0..<maxLevel + 1] ! level + code"
    and code: "unat code < 8 ^ level"
  shows "key e < levelStart_val (maxLevel + 1)"
proof -
  have "levelStart_val level + unat code < levelStart_val (Suc level)"
    using code by simp
  also have "\<dots> \<le> levelStart_val (maxLevel + 1)"
    using level by (intro levelStart_val_mono) simp
  finally have less: "levelStart_val level + unat code < levelStart_val (maxLevel + 1)" .
  also have "\<dots> < 2 ^ 32"
    using m by (intro levelStart_val_small) simp
  finally have small: "levelStart_val level + unat code < 2 ^ 32" .
  then have "levelStart_val level < 2 ^ 32"
    by simp
  then have "unat (word_of_nat (levelStart_val level) :: size_type) = levelStart_val level"
    by (rule unat_word_of_nat_32)
  with small have "unat (word_of_nat (levelStart_val level) + code) = levelStart_val level + unat code"
    by (simp add: unat_add_lem [THEN iffD1])
  with less show ?thesis
    unfolding key_def pos nth_levelStart [OF m level] by simp
qed


lemma unat_word_of_nat_Suc:
  assumes "g < 2 ^ 32 - 1"
  shows "unat (word_of_nat g + 1 :: size_type) = g + 1"
proof -
  have "word_of_nat g + 1 = (word_of_nat (g + 1) :: size_type)"
    by simp
  moreover have "g + 1 < 2 ^ 32"
    using assms by simp
  ultimately show ?thesis
    by (simp only: unat_word_of_nat_32)
qed


subsection \<open>Evaluating the constructor\<close>

lemma SplatTree_newI:
  assumes "length boxes \<le> 0xFFFFFFFF"
    and "find_maxLevel (max (max n0 n1) n2) 0 = maxLevel"
    and "fill_levelStart [0] [0..<maxLevel + 1] = ls"
    and "all_entries maxLevel ls (n0, n1, n2) boxes = Inr es"
  shows "SplatTree_new boxes (n0, n1, n2) = flatten_entries ls es"
  using assms by (simp add: SplatTree_new_def Let_def)

lemma count_entries_total:
  "\<forall>e \<in> set es. key e < length st \<Longrightarrow> \<exists>st'. count_entries es st = Inr st'"
  by (induction es arbitrary: st) (simp_all add: key_def)

lemma flatten_entries_total:
  assumes "\<forall>e \<in> set es. key e < unat (last ls + 1)"
  shows "\<exists>t. flatten_entries ls es = Inr t"
proof -
  have "\<forall>e \<in> set (sort_key pos es). key e < length (replicate (unat (last ls + 1)) (0 :: size_type))"
    using assms by simp
  then obtain st' where "count_entries (sort_key pos es) (replicate (unat (last ls + 1)) 0) = Inr st'"
    using count_entries_total by blast
  then show ?thesis
    by (simp add: flatten_entries_def Let_def)
qed

lemma splat_entries_eight:
  "splat_entries 1 [0, 1, 9] (2, 2, 2) sid ((0, 0, 0), (1, 1, 1)) = Inr (eight_cells sid)"
proof -
  have axis: "shift_loop 0 1 0 = 0"
    by code_simp
  have range: "[(0 :: int)..1] = [0, 1]"
    by code_simp
  have code: "makeCode 0 0 0 = Inr 0" "makeCode 1 0 0 = Inr 1" "makeCode 0 1 0 = Inr 2"
    "makeCode 1 1 0 = Inr 3" "makeCode 0 0 1 = Inr 4" "makeCode 1 0 1 = Inr 5"
    "makeCode 0 1 1 = Inr 6" "makeCode 1 1 1 = Inr 7"
    by code_simp+
  show ?thesis
    by (simp add: splat_entries_def axis range cell_entry_def code eight_cells_def)
qed

lemma all_entries_replicate_eight:
  "all_entries 1 [0, 1, 9] (2, 2, 2) (replicate n ((0, 0, 0), (1, 1, 1)))
     = Inr (concat (map (\<lambda>i. eight_cells (word_of_nat i)) [0..<n]))"
proof -
  have eq: "map (\<lambda>(i, box). splat_entries 1 [0, 1, 9] (2, 2, 2) (word_of_nat i) box)
          (zip [0..<length (replicate n (((0, 0, 0), (1, 1, 1)) :: ibox))]
            (replicate n ((0, 0, 0), (1, 1, 1))))
      = map Inr (map (\<lambda>i. eight_cells (word_of_nat i)) [0..<n])"
    by (simp add: zip_replicate2 splat_entries_eight [unfolded One_nat_def])
  show ?thesis
    unfolding all_entries_def eq collect_map_Inr by simp
qed

lemma length_eight_cells_concat:
  "length (concat (map (\<lambda>i. eight_cells (word_of_nat i)) [0..<n])) = 8 * n"
  by (simp add: length_concat comp_def eight_cells_def sum_list_triv)

lemma key_eight_cells:
  "e \<in> set (concat (map (\<lambda>i. eight_cells (word_of_nat i)) [0..<n])) \<Longrightarrow> 1 \<le> key e \<and> key e \<le> 8"
  by (auto simp add: eight_cells_def key_def)

lemma count_eight_cells:
  "length (filter (\<lambda>e. key e < 9) (concat (map (\<lambda>i. eight_cells (word_of_nat i)) [0..<n]))) = 8 * n"
proof -
  have "filter (\<lambda>e. key e < 9) (concat (map (\<lambda>i. eight_cells (word_of_nat i)) [0..<n]))
      = concat (map (\<lambda>i. eight_cells (word_of_nat i)) [0..<n])"
    unfolding filter_id_conv using key_eight_cells by fastforce
  then show ?thesis
    by (simp only: length_eight_cells_concat)
qed

lemma count_seven_cells:
  "length (filter (\<lambda>e. key e < 8) (concat (map (\<lambda>i. eight_cells (word_of_nat i)) [0..<n]))) = 7 * n"
  by (simp add: filter_concat length_concat comp_def eight_cells_def key_def sum_list_triv)

text \<open>
  A vector of \<open>2 ^ 29\<close> such splats has \<open>2 ^ 32\<close> entries. The construction succeeds, and
  the last element of \<^verbatim>\<open>start\<close> has wrapped around to 0.
\<close>

lemma overflow_tree:
  "\<exists>t. SplatTree_new (replicate (2 ^ 29) ((0, 0, 0), (1, 1, 1))) (2, 2, 2) = Inr t
     \<and> length (ids t) = 2 ^ 32 \<and> last (start_t t) = 0 \<and> hd (drop 8 (start_t t)) = 0xE0000000"
proof -
  let ?es = "concat (map (\<lambda>i. eight_cells (word_of_nat i)) [0..<2 ^ 29])"
  have ml: "find_maxLevel (max (max 2 2) 2) 0 = 1"
    by code_simp
  have ls: "fill_levelStart [0] [0..<1 + 1] = [0, 1, 9]"
    by code_simp
  have new: "SplatTree_new (replicate (2 ^ 29) ((0, 0, 0), (1, 1, 1))) (2, 2, 2)
      = flatten_entries [0, 1, 9] ?es"
  proof (rule SplatTree_newI [OF _ ml ls])
    show "length (replicate (2 ^ 29) (((0, 0, 0), (1, 1, 1)) :: ibox)) \<le> 0xFFFFFFFF"
      by simp
    show "all_entries 1 [0, 1, 9] (2, 2, 2) (replicate (2 ^ 29) ((0, 0, 0), (1, 1, 1))) = Inr ?es"
      by (rule all_entries_replicate_eight)
  qed
  have N: "unat (last [0, 1, 9 :: size_type] + 1) = 10"
    by simp
  have "\<forall>e \<in> set ?es. key e < unat (last [0, 1, 9 :: size_type] + 1)"
    unfolding N using key_eight_cells by fastforce
  then obtain t where t: "flatten_entries [0, 1, 9] ?es = Inr t"
    using flatten_entries_total by blast
  note f = flatten_entries_Inr [OF t, unfolded N]
  have "length (ids t) = 8 * 2 ^ 29"
    unfolding f(2) by (simp only: length_map length_sort length_eight_cells_concat)
  then have len: "length (ids t) = 2 ^ 32"
    by simp
  have l10: "length (start_t t) = 10"
    by (rule f(3))
  then have "start_t t \<noteq> []"
    by auto
  then have "last (start_t t) = start_t t ! (length (start_t t) - 1)"
    by (rule last_conv_nth)
  also have "\<dots> = start_t t ! 9"
    by (simp add: l10)
  also have "\<dots> = word_of_nat (length (filter (\<lambda>e. key e < 9) ?es))"
    using f(5) by simp
  also have "\<dots> = word_of_nat (8 * 2 ^ 29)"
    by (simp only: count_eight_cells)
  also have "\<dots> = (0 :: size_type)"
    by simp
  finally have lastz: "last (start_t t) = 0" .
  have "hd (drop 8 (start_t t)) = start_t t ! 8"
    by (simp add: hd_drop_conv_nth l10)
  also have "\<dots> = word_of_nat (length (filter (\<lambda>e. key e < 8) ?es))"
    using f(5) by simp
  also have "\<dots> = word_of_nat (7 * 2 ^ 29)"
    by (simp only: count_seven_cells)
  also have "\<dots> = (0xE0000000 :: size_type)"
    by simp
  finally show ?thesis
    using new t len lastz by simp
qed

text \<open>
  The claim C4 as it is written holds for every splat vector within the preconditions of
  the constructor. These \<open>2 ^ 29\<close> splats are within them (fewer than \<open>2 ^ 32\<close> splats, every
  box inside the vertices of the grid), the constructor returns a tree, and in it
  \<^verbatim>\<open>ids.size()\<close> is \<open>2 ^ 32\<close> while \<^verbatim>\<open>start.back()\<close> is 0; \<^verbatim>\<open>start[8]\<close> is \<open>7 * 2 ^ 29\<close>, so that
  \<^verbatim>\<open>start\<close> decreases from its element 8 to its element 9.
\<close>

theorem SplatTree_overflow_counterexample:
  "map_sum id (length \<circ> ids) (SplatTree_new (replicate (2 ^ 29) ((0, 0, 0), (1, 1, 1))) (2, 2, 2))
     = Inr (2 ^ 32)
   \<and> map_sum id (unat \<circ> last \<circ> start_t)
       (SplatTree_new (replicate (2 ^ 29) ((0, 0, 0), (1, 1, 1))) (2, 2, 2)) = Inr 0
   \<and> map_sum id (unat \<circ> hd \<circ> drop 8 \<circ> start_t)
       (SplatTree_new (replicate (2 ^ 29) ((0, 0, 0), (1, 1, 1))) (2, 2, 2)) = Inr 0xE0000000"
  using overflow_tree by auto

text \<open>
  C4, as amended: for every splat vector and grid on which the construction succeeds, if
  the grid has at most 1024 vertices on each axis (so that there are at most 11 levels
  and \<^verbatim>\<open>levelStart\<close> stays within 32 bits) and the number of entries, \<^verbatim>\<open>ids.size()\<close>, is
  below \<open>2 ^ 32\<close>, then after the construction the \<^verbatim>\<open>start\<close> array is monotonically
  non-decreasing with \<^verbatim>\<open>start.back() == ids.size()\<close>; for every cell \<open>c\<close> the slice of \<^verbatim>\<open>ids\<close>
  from \<^verbatim>\<open>start[c]\<close> to \<^verbatim>\<open>start[c + 1]\<close> holds exactly the splat ids of the entries that the
  placement loop made for the cell \<open>c\<close> (one for each splat, level and Morton code that
  resolve to \<open>c\<close>), in the order in which the loop made them, which is that of increasing
  splat index.
\<close>

theorem SplatTree_prefix_sum:
  assumes t: "SplatTree_new boxes (n0, n1, n2) = Inr t"
    and grid: "n0 \<le> 1024" "n1 \<le> 1024" "n2 \<le> 1024"
    and small: "length (ids t) < 2 ^ 32"
  shows "sorted (map unat (start_t t)) \<and> unat (last (start_t t)) = length (ids t)
    \<and> (\<exists>es. all_entries (find_maxLevel (max (max n0 n1) n2) 0) (levelStart t) (n0, n1, n2) boxes
            = Inr es
        \<and> (\<forall>c. Suc c < length (start_t t) \<longrightarrow>
              take (unat (start_t t ! Suc c) - unat (start_t t ! c))
                (drop (unat (start_t t ! c)) (ids t))
                = map splatId (filter (\<lambda>e. key e = c) es)
              \<and> sorted (map unat (take (unat (start_t t ! Suc c) - unat (start_t t ! c))
                  (drop (unat (start_t t ! c)) (ids t))))))"
proof -
  define maxLevel where "maxLevel = find_maxLevel (max (max n0 n1) n2) 0"
  define ls where "ls = fill_levelStart [0] [0..<maxLevel + 1]"
  from t obtain es where boxes: "length boxes \<le> 0xFFFFFFFF"
    and es: "all_entries maxLevel ls (n0, n1, n2) boxes = Inr es"
    and flat: "flatten_entries ls es = Inr t"
    unfolding maxLevel_def ls_def by (rule SplatTree_new_Inr)
  note f = flatten_entries_Inr [OF flat]
  from es obtain ess where ess: "es = concat ess" "length ess = length boxes"
    and splat: "\<forall>i < length boxes.
       splat_entries maxLevel ls (n0, n1, n2) (word_of_nat i) (boxes ! i) = Inr (ess ! i)"
    by (rule all_entries_Inr) blast
  have sz: "max (max n0 n1) n2 \<le> 2 ^ maxLevel"
    unfolding maxLevel_def by (rule find_maxLevel_bound)
  then have n: "n0 \<le> 2 ^ maxLevel" "n1 \<le> 2 ^ maxLevel" "n2 \<le> 2 ^ maxLevel"
    by simp_all
  have "max (max n0 n1) n2 \<le> 2 ^ 10"
    using grid by simp
  then have m: "maxLevel \<le> 10"
    unfolding maxLevel_def by (rule find_maxLevel_le) simp
  have entry: "splatId e = word_of_nat i
      \<and> (\<exists>level code. level \<le> maxLevel \<and> pos e = ls ! level + code \<and> unat code < 8 ^ level)"
    if "i < length boxes" "e \<in> set (ess ! i)" for i e
  proof -
    obtain lo0 lo1 lo2 hi0 hi1 hi2 where b: "boxes ! i = ((lo0, lo1, lo2), (hi0, hi1, hi2))"
      by (metis prod_cases3 surj_pair)
    from splat that(1) have
      "splat_entries maxLevel ls (n0, n1, n2) (word_of_nat i) (boxes ! i) = Inr (ess ! i)"
      by blast
    then have
      "splat_entries maxLevel ls (n0, n1, n2) (word_of_nat i) ((lo0, lo1, lo2), (hi0, hi1, hi2))
         = Inr (ess ! i)"
      unfolding b .
    then show ?thesis
      using n m that(2) by (rule splat_entries_Inr)
  qed
  have len: "length (start_t t) = levelStart_val (maxLevel + 1) + 1"
  proof -
    have "(8 :: nat) ^ (maxLevel + 1) \<le> 8 ^ 11"
      using m by (intro power_increasing) simp_all
    also have "(8 :: nat) ^ 11 = 8589934592"
      by simp
    finally have "7 * levelStart_val (maxLevel + 1) + 1 \<le> 8589934592"
      unfolding levelStart_val_closed [symmetric] .
    then have "levelStart_val (maxLevel + 1) < 2 ^ 32 - 1"
      by simp
    then have "unat (word_of_nat (levelStart_val (maxLevel + 1)) + 1 :: size_type)
        = levelStart_val (maxLevel + 1) + 1"
      by (rule unat_word_of_nat_Suc)
    then show ?thesis
      unfolding f(3) ls_def last_levelStart [OF m] .
  qed
  have strict: "\<forall>e \<in> set es. Suc (key e) < length (start_t t)"
  proof
    fix e
    assume "e \<in> set es"
    then obtain xs where xs: "xs \<in> set ess" "e \<in> set xs"
      unfolding ess(1) by auto
    from xs(1) obtain i where "i < length ess" "xs = ess ! i"
      by (auto simp add: in_set_conv_nth)
    with xs(2) ess(2) have i: "i < length boxes" "e \<in> set (ess ! i)"
      by simp_all
    from entry [OF i] obtain level code where "level \<le> maxLevel"
      "pos e = fill_levelStart [0] [0..<maxLevel + 1] ! level + code" "unat code < 8 ^ level"
      unfolding ls_def by blast
    with m have "key e < levelStart_val (maxLevel + 1)"
      by (rule entry_key_bound)
    then show "Suc (key e) < length (start_t t)"
      by (simp add: len)
  qed
  have small': "length es < 2 ^ 32"
    using small by (simp add: f(2))
  note p = flatten_entries_props [OF flat small' strict]
  have nonempty: "start_t t \<noteq> []"
    using len by auto
  have id_sorted: "sorted (map (\<lambda>e. unat (splatId e)) es)"
  proof -
    have "unat (splatId e) = 0 + i" if "i < length ess" "e \<in> set (ess ! i)" for i e
    proof -
      from that ess(2) have i: "i < length boxes"
        by simp
      with boxes have "i < 2 ^ 32"
        by simp
      with entry [OF i that(2)] show ?thesis
        by (simp add: unat_word_of_nat_32)
    qed
    then show ?thesis
      unfolding ess(1) using sorted_concat_indexed [of ess "\<lambda>e. unat (splatId e)" 0] by blast
  qed
  have slice: "take (unat (start_t t ! Suc c) - unat (start_t t ! c))
        (drop (unat (start_t t ! c)) (ids t)) = map splatId (filter (\<lambda>e. key e = c) es)
      \<and> sorted (map unat (take (unat (start_t t ! Suc c) - unat (start_t t ! c))
        (drop (unat (start_t t ! c)) (ids t))))"
    if c: "Suc c < length (start_t t)" for c
  proof -
    have "sorted (map (\<lambda>e. unat (splatId e)) (filter (\<lambda>e. key e = c) es))"
      using id_sorted by (rule sorted_filter)
    then have "sorted (map unat (map splatId (filter (\<lambda>e. key e = c) es)))"
      by (simp add: comp_def)
    with p(3) [OF c] show ?thesis
      by simp
  qed
  from es have "all_entries (find_maxLevel (max (max n0 n1) n2) 0) (levelStart t) (n0, n1, n2) boxes
      = Inr es"
    by (simp add: f(1) maxLevel_def)
  with p(1) p(2) [OF nonempty] slice show ?thesis
    by blast
qed

text \<open>
  The theorem at three splats in a grid of 2 vertices on each axis: the first covers the
  eight cells of the finest level, the second lies in the cell (1, 0, 1) and the third in
  the cell (0, 0, 0).
\<close>

lemma small_tree:
  "SplatTree_new [((0, 0, 0), (1, 1, 1)), ((1, 0, 1), (1, 0, 1)), ((0, 0, 0), (0, 0, 0))] (2, 2, 2)
     = Inr \<lparr>levelStart = [0, 1, 9], start_t = [0, 0, 2, 3, 4, 5, 6, 8, 9, 10],
            ids = [0, 2, 0, 0, 0, 0, 0, 1, 0, 0]\<rparr>"
proof -
  have ml: "find_maxLevel (max (max 2 2) 2) 0 = 1"
    by code_simp
  have ls: "fill_levelStart [0] [0..<1 + 1] = [0, 1, 9]"
    by code_simp
  have es: "all_entries 1 [0, 1, 9] (2, 2, 2)
      [((0, 0, 0), (1, 1, 1)), ((1, 0, 1), (1, 0, 1)), ((0, 0, 0), (0, 0, 0))]
    = Inr [\<lparr>pos = 1, splatId = 0\<rparr>, \<lparr>pos = 2, splatId = 0\<rparr>, \<lparr>pos = 3, splatId = 0\<rparr>,
       \<lparr>pos = 4, splatId = 0\<rparr>, \<lparr>pos = 5, splatId = 0\<rparr>, \<lparr>pos = 6, splatId = 0\<rparr>,
       \<lparr>pos = 7, splatId = 0\<rparr>, \<lparr>pos = 8, splatId = 0\<rparr>, \<lparr>pos = 6, splatId = 1\<rparr>,
       \<lparr>pos = 1, splatId = 2\<rparr>]"
    by code_simp
  have flat: "flatten_entries [0, 1, 9]
      [\<lparr>pos = 1, splatId = 0\<rparr>, \<lparr>pos = 2, splatId = 0\<rparr>, \<lparr>pos = 3, splatId = 0\<rparr>,
       \<lparr>pos = 4, splatId = 0\<rparr>, \<lparr>pos = 5, splatId = 0\<rparr>, \<lparr>pos = 6, splatId = 0\<rparr>,
       \<lparr>pos = 7, splatId = 0\<rparr>, \<lparr>pos = 8, splatId = 0\<rparr>, \<lparr>pos = 6, splatId = 1\<rparr>,
       \<lparr>pos = 1, splatId = 2\<rparr>]
    = Inr \<lparr>levelStart = [0, 1, 9], start_t = [0, 0, 2, 3, 4, 5, 6, 8, 9, 10],
           ids = [0, 2, 0, 0, 0, 0, 0, 1, 0, 0]\<rparr>"
    by code_simp
  have len: "length [((0, 0, 0), (1, 1, 1)), ((1, 0, 1), (1, 0, 1)), (((0, 0, 0), (0, 0, 0)) :: ibox)]
      \<le> 0xFFFFFFFF"
    by simp
  show ?thesis
    unfolding SplatTree_newI [OF len ml ls es] by (rule flat)
qed

theorem SplatTree_prefix_sum_witness:
  "SplatTree_new [((0, 0, 0), (1, 1, 1)), ((1, 0, 1), (1, 0, 1)), ((0, 0, 0), (0, 0, 0))] (2, 2, 2)
     = Inr \<lparr>levelStart = [0, 1, 9], start_t = [0, 0, 2, 3, 4, 5, 6, 8, 9, 10],
            ids = [0, 2, 0, 0, 0, 0, 0, 1, 0, 0]\<rparr>
   \<and> (2 :: nat) \<le> 1024
   \<and> length [0, 2, 0, 0, 0, 0, 0, 1, 0, 0 :: size_type] < 2 ^ 32
   \<and> sorted (map unat [0, 0, 2, 3, 4, 5, 6, 8, 9, 10 :: size_type])
   \<and> unat (last [0, 0, 2, 3, 4, 5, 6, 8, 9, 10 :: size_type])
       = length [0, 2, 0, 0, 0, 0, 0, 1, 0, 0 :: size_type]
   \<and> take (unat (6 :: size_type) - unat (5 :: size_type))
         (drop (unat (5 :: size_type)) [0, 2, 0, 0, 0, 0, 0, 1, 0, 0 :: size_type]) = [0]
   \<and> take (unat (8 :: size_type) - unat (6 :: size_type))
         (drop (unat (6 :: size_type)) [0, 2, 0, 0, 0, 0, 0, 1, 0, 0 :: size_type]) = [0, 1]"
proof -
  let ?t = "\<lparr>levelStart = [0, 1, 9], start_t = [0, 0, 2, 3, 4, 5, 6, 8, 9, 10],
            ids = [0, 2, 0, 0, 0, 0, 0, 1, 0, 0 :: size_type]\<rparr>"
  have g: "(2 :: nat) \<le> 1024"
    by simp
  have small: "length (ids ?t) < 2 ^ 32"
    by simp
  from SplatTree_prefix_sum [OF small_tree g g g small]
  have "sorted (map unat (start_t ?t))" "unat (last (start_t ?t)) = length (ids ?t)"
    by blast+
  with small_tree g small show ?thesis
    by simp
qed

end
